theory Spec2Isabelle
  imports Main
begin

section \<open>Python values\<close>

text \<open>
  A Python \<open>str\<close> is a sequence of Unicode code points; \<open>ord\<close> of a one-character string is its
  code point and \<open>chr\<close> is the inverse. Code points are natural numbers, Python's unbounded
  integers are \<open>int\<close>.
\<close>

type_synonym codepoint = nat
type_synonym pystr = "codepoint list"

datatype py_error = StopIteration | ValueError | TypeError | EOFError

text \<open>ASCII string literals as code-point lists.\<close>

definition str :: "string \<Rightarrow> pystr" where
  "str s = map of_char s"

text \<open>\<open>string.ascii_lowercase\<close>\<close>

definition ascii_lowercase :: pystr where
  "ascii_lowercase = str ''abcdefghijklmnopqrstuvwxyz''"

text \<open>
  \<open>sub in s\<close> on strings is the substring test: \<open>sub\<close> is a prefix of \<open>s\<close> or of one of
  its suffixes.
\<close>

fun starts_with :: "pystr \<Rightarrow> pystr \<Rightarrow> bool" where
  "starts_with s [] = True"
| "starts_with [] (x # xs) = False"
| "starts_with (y # ys) (x # xs) = (x = y \<and> starts_with ys xs)"

fun str_contains :: "pystr \<Rightarrow> pystr \<Rightarrow> bool" where
  "str_contains [] sub = (sub = [])"
| "str_contains (y # ys) sub = (starts_with (y # ys) sub \<or> str_contains ys sub)"

text \<open>
  \<open>str.lower()\<close> of one character. Unicode's lowercase mapping is given for ASCII and for the
  two other code points whose image meets ASCII: U+0130 (capital I with dot above) lowers to the
  two code points \<open>i\<close>, U+0307, and U+212A (the Kelvin sign) lowers to \<open>k\<close>. Every other code
  point is returned as it is; no other code point lowers to a string of ASCII letters, so the test
  \<open>c.lower() in string.ascii_lowercase\<close> is exact for every code point, as is the test
  \<open>response.lower() == 'y'\<close> of an answer, and \<open>lower\<close> is exact on every string over ASCII,
  U+0130 and U+212A. On a string holding another cased code point (U+00C9, say) \<open>lower\<close> differs
  from Python's; keys are only ever taken from the exact range below.
\<close>

definition lower_cp :: "codepoint \<Rightarrow> pystr" where
  "lower_cp c =
     (if 65 \<le> c \<and> c \<le> 90 then [c + 32]
      else if c = 0x130 then [0x69, 0x307]
      else if c = 0x212A then [0x6B]
      else [c])"

definition lower :: "pystr \<Rightarrow> pystr" where
  "lower s = concat (map lower_cp s)"

text \<open>
  \<open>c.isupper()\<close> for a one-character string. The source asks it only of characters that passed
  the test \<open>c.lower() in string.ascii_lowercase\<close>: of those, \<open>A\<close>..\<open>Z\<close> and U+212A are
  upper case and \<open>a\<close>..\<open>z\<close> are not.
\<close>

definition isupper_cp :: "codepoint \<Rightarrow> bool" where
  "isupper_cp c = ((65 \<le> c \<and> c \<le> 90) \<or> c = 0x212A)"

text \<open>\<open>s.upper()\<close>, asked by the source only of one lower-case ASCII letter.\<close>

definition upper_cp :: "codepoint \<Rightarrow> codepoint" where
  "upper_cp c = (if 97 \<le> c \<and> c \<le> 122 then c - 32 else c)"

text \<open>\<open>ord(s)\<close> raises \<open>TypeError\<close> unless \<open>s\<close> has exactly one character.\<close>

fun py_ord :: "pystr \<Rightarrow> py_error + int" where
  "py_ord [c] = Inr (int c)"
| "py_ord s = Inl TypeError"

text \<open>
  \<open>chr(((x - ord('a') - shift) % 26) + ord('a'))\<close>: Python's \<open>%\<close> with a positive modulus is
  never negative, as \<open>mod\<close> on \<open>int\<close>, so the argument of \<open>chr\<close> lies in 97..122.
\<close>

definition unshift :: "int \<Rightarrow> int \<Rightarrow> codepoint" where
  "unshift x shift = nat (((x - 97 - shift) mod 26) + 97)"

section \<open>The codec: \<open>decrypt_vigenere\<close>\<close>

text \<open>
  \<open>itertools.cycle(key)\<close> is read only through \<open>next\<close>; its state is the number \<open>n\<close> of calls
  made so far. The \<open>n\<close>-th call returns \<open>key[n mod len(key)]\<close> and raises \<open>StopIteration\<close>
  when the key is empty.
\<close>

definition cycle_next :: "pystr \<Rightarrow> nat \<Rightarrow> py_error + codepoint" where
  "cycle_next key n = (if key = [] then Inl StopIteration else Inr (key ! (n mod length key)))"

text \<open>
  The loop \<open>for c in ciphertext\<close> of \<open>decrypt_vigenere\<close>. \<open>key\<close> is the lowered key, \<open>n\<close>
  the state of \<open>key_cycle\<close>; the characters appended to \<open>decrypted\<close> are returned in order.
\<close>

fun decrypt_loop :: "pystr \<Rightarrow> nat \<Rightarrow> pystr \<Rightarrow> py_error + pystr" where
  "decrypt_loop key n [] = Inr []"
| "decrypt_loop key n (c # cs) =
     (if str_contains ascii_lowercase (lower_cp c) then
        (case cycle_next key n of
           Inl e \<Rightarrow> Inl e
         | Inr key_char \<Rightarrow>
            (let shift = int key_char - 97 in
             case (if isupper_cp c
                   then (case py_ord (lower_cp c) of
                           Inl e \<Rightarrow> Inl e
                         | Inr x \<Rightarrow> Inr (upper_cp (unshift x shift)))
                   else Inr (unshift (int c) shift)) of
               Inl e \<Rightarrow> Inl e
             | Inr decrypted_char \<Rightarrow>
                (case decrypt_loop key (n + 1) cs of
                   Inl e \<Rightarrow> Inl e
                 | Inr rest \<Rightarrow> Inr (decrypted_char # rest))))
      else
        (case decrypt_loop key n cs of
           Inl e \<Rightarrow> Inl e
         | Inr rest \<Rightarrow> Inr (c # rest)))"

definition decrypt_vigenere :: "pystr \<Rightarrow> pystr \<Rightarrow> py_error + pystr" where
  "decrypt_vigenere ciphertext key = decrypt_loop (lower key) 0 ciphertext"

text \<open>The characters \<open>decrypt_vigenere\<close> treats as letters, in closed form.\<close>

definition codec_letter :: "codepoint \<Rightarrow> bool" where
  "codec_letter c = ((65 \<le> c \<and> c \<le> 90) \<or> (97 \<le> c \<and> c \<le> 122) \<or> c = 0x212A)"

definition ascii_letter :: "codepoint \<Rightarrow> bool" where
  "ascii_letter c = ((65 \<le> c \<and> c \<le> 90) \<or> (97 \<le> c \<and> c \<le> 122))"

definition lowercase_letter :: "codepoint \<Rightarrow> bool" where
  "lowercase_letter c = (97 \<le> c \<and> c \<le> 122)"

section \<open>The codec's encrypting direction\<close>

text \<open>
  Modelled from the spec: the repository implements only the decrypting direction; the
  encrypting direction is section 4.5 of the specification. For each character: a letter (ASCII
  letter detection, section 6) takes the next key character cyclically, \<open>shift\<close> is that key
  character minus \<open>a\<close>, and the output is the letter of index \<open>(char_index + shift) mod 26\<close> in
  the case of the input; any other character passes through and leaves the key cursor where it
  is. The key is lowered first. An empty key is the specification's \<open>EmptyKey\<close> error, \<open>None\<close>
  here.
\<close>

definition shift_letter :: "codepoint \<Rightarrow> int \<Rightarrow> codepoint" where
  "shift_letter c shift =
     (if 65 \<le> c \<and> c \<le> 90 then nat (((int c - 65 + shift) mod 26) + 65)
      else nat (((int c - 97 + shift) mod 26) + 97))"

fun spec_encrypt_loop :: "pystr \<Rightarrow> nat \<Rightarrow> pystr \<Rightarrow> pystr" where
  "spec_encrypt_loop key n [] = []"
| "spec_encrypt_loop key n (c # cs) =
     (if ascii_letter c
      then shift_letter c (int (key ! (n mod length key)) - 97) # spec_encrypt_loop key (n + 1) cs
      else c # spec_encrypt_loop key n cs)"

definition spec_encrypt :: "pystr \<Rightarrow> pystr \<Rightarrow> pystr option" where
  "spec_encrypt text key = (if key = [] then None else Some (spec_encrypt_loop (lower key) 0 text))"

section \<open>Cosets: \<open>get_cosets\<close>\<close>

text \<open>
  The extended slice \<open>s[i::step]\<close> with \<open>i \<ge> 0\<close>. A zero step raises \<open>ValueError\<close>. For a
  positive step the slice starts at \<open>min(i, len(s))\<close>, stops at \<open>len(s)\<close> and has
  \<open>(stop - start - 1) // step + 1\<close> elements when \<open>start < stop\<close>; for a negative step it
  starts at \<open>min(i, len(s) - 1)\<close> and runs down to index 0.
\<close>

definition slice_from_step :: "'a list \<Rightarrow> nat \<Rightarrow> int \<Rightarrow> py_error + 'a list" where
  "slice_from_step s i step =
     (if step = 0 then Inl ValueError
      else if 0 < step then
        Inr (if i < length s
             then map (\<lambda>j. s ! (i + j * nat step)) [0..<(length s - i - 1) div nat step + 1]
             else [])
      else
        Inr (if s = [] then []
             else (let start = min i (length s - 1)
                   in map (\<lambda>j. s ! (start - j * nat (- step))) [0..<start div nat (- step) + 1])))"

text \<open>A list comprehension over fallible elements: the first exception ends it.\<close>

fun collect :: "(py_error + 'a) list \<Rightarrow> py_error + 'a list" where
  "collect [] = Inr []"
| "collect (Inl e # rs) = Inl e"
| "collect (Inr x # rs) = (case collect rs of Inl e \<Rightarrow> Inl e | Inr xs \<Rightarrow> Inr (x # xs))"

text \<open>\<open>range(key_length)\<close> is empty for \<open>key_length \<le> 0\<close>.\<close>

definition get_cosets :: "'a list \<Rightarrow> int \<Rightarrow> py_error + 'a list list" where
  "get_cosets ciphertext key_length =
     collect (map (\<lambda>i. slice_from_step ciphertext i key_length) [0..<nat key_length])"

text \<open>
  The round-robin interleaving of the specification: position \<open>j\<close> of the text is element
  \<open>j div N\<close> of coset \<open>j mod N\<close>, for \<open>N\<close> cosets.
\<close>

definition round_robin :: "'a list list \<Rightarrow> 'a list" where
  "round_robin cosets =
     map (\<lambda>j. cosets ! (j mod length cosets) ! (j div length cosets))
       [0..<sum_list (map length cosets)]"

section \<open>Shift scoring: \<open>frequency_analysis\<close>\<close>

definition ENGLISH_FREQ :: pystr where
  "ENGLISH_FREQ = str ''etaoinshrdlcumwfgypbvkjxqz''"

text \<open>
  A \<open>Counter\<close> is a dictionary, and a dictionary keeps its keys in the order of their first
  insertion: an association list. \<open>c[x] += 1\<close> adds one in place, or appends \<open>x\<close> with count 1.
\<close>

fun counter_incr :: "('a \<times> int) list \<Rightarrow> 'a \<Rightarrow> ('a \<times> int) list" where
  "counter_incr [] x = [(x, 1)]"
| "counter_incr ((k, v) # kvs) x =
     (if k = x then (k, v + 1) # kvs else (k, v) # counter_incr kvs x)"

definition Counter :: "'a list \<Rightarrow> ('a \<times> int) list" where
  "Counter xs = fold (\<lambda>x c. counter_incr c x) xs []"

text \<open>\<open>list.index(x)\<close>: the first position of \<open>x\<close>, \<open>ValueError\<close> when there is none.\<close>

fun list_index :: "'a list \<Rightarrow> 'a \<Rightarrow> py_error + int" where
  "list_index [] x = Inl ValueError"
| "list_index (y # ys) x =
     (if y = x then Inr 0
      else (case list_index ys x of Inl e \<Rightarrow> Inl e | Inr i \<Rightarrow> Inr (i + 1)))"

text \<open>The inner loop \<open>for c in counts\<close>, from the running \<open>score\<close>.\<close>

fun score_loop :: "(codepoint \<times> int) list \<Rightarrow> int \<Rightarrow> int \<Rightarrow> py_error + int" where
  "score_loop [] shift score = Inr score"
| "score_loop ((c, n) # counts) shift score =
     (let expected_char = unshift (int c) shift in
      if expected_char \<in> set ENGLISH_FREQ then
        (case list_index ENGLISH_FREQ expected_char of
           Inl e \<Rightarrow> Inl e
         | Inr r \<Rightarrow> score_loop counts shift (score + n * (26 - r)))
      else score_loop counts shift (score + 0))"

text \<open>The outer loop \<open>for shift in range(26)\<close>, on the state \<open>(best_shift, best_score)\<close>.\<close>

fun shift_loop :: "(codepoint \<times> int) list \<Rightarrow> int list \<Rightarrow> int \<times> int \<Rightarrow> py_error + int \<times> int" where
  "shift_loop counts [] best = Inr best"
| "shift_loop counts (shift # shifts) (best_shift, best_score) =
     (case score_loop counts shift 0 of
        Inl e \<Rightarrow> Inl e
      | Inr score \<Rightarrow>
          shift_loop counts shifts
            (if score > best_score then (shift, score) else (best_shift, best_score)))"

definition frequency_analysis :: "pystr \<Rightarrow> py_error + int" where
  "frequency_analysis coset =
     (case shift_loop (Counter coset) [0..25] (0, - 1) of
        Inl e \<Rightarrow> Inl e
      | Inr (best_shift, best_score) \<Rightarrow> Inr best_shift)"

text \<open>
  The score in the specification's words: the sum over the distinct letters \<open>c\<close> of the coset of
  \<open>count(c) * (26 - rank)\<close>, where \<open>rank\<close> is the 0-based position in the frequency table of the
  letter \<open>((c - 'a') - s) mod 26\<close>.
\<close>

definition rank :: "codepoint \<Rightarrow> int" where
  "rank x = int (length (takeWhile (\<lambda>y. y \<noteq> x) ENGLISH_FREQ))"

definition spec_score :: "pystr \<Rightarrow> int \<Rightarrow> int" where
  "spec_score coset s =
     (\<Sum>c \<leftarrow> remdups coset.
        int (count_list coset c) * (26 - rank (nat ((int c - 97 - s) mod 26 + 97))))"

section \<open>Key length: \<open>kasiski_examination\<close>\<close>

text \<open>
  \<open>sequences\<close> maps each 3-character substring to the list of its start offsets, in the order of
  first occurrence of the substrings. \<open>range(len(ciphertext) - 2)\<close> is empty when the text has
  fewer than three characters, as the truncating subtraction of \<open>nat\<close> makes it here.
\<close>

fun seq_add :: "(pystr \<times> nat list) list \<Rightarrow> pystr \<Rightarrow> nat \<Rightarrow> (pystr \<times> nat list) list" where
  "seq_add [] seq i = [(seq, [i])]"
| "seq_add ((k, v) # rest) seq i =
     (if k = seq then (k, v @ [i]) # rest else (k, v) # seq_add rest seq i)"

definition trigram :: "pystr \<Rightarrow> nat \<Rightarrow> pystr" where
  "trigram ciphertext i = take 3 (drop i ciphertext)"

definition sequences :: "pystr \<Rightarrow> (pystr \<times> nat list) list" where
  "sequences ciphertext =
     fold (\<lambda>i seqs. seq_add seqs (trigram ciphertext i) i) [0..<length ciphertext - 2] []"

definition repeated_seqs :: "pystr \<Rightarrow> (pystr \<times> nat list) list" where
  "repeated_seqs ciphertext = filter (\<lambda>(k, v). length v > 1) (sequences ciphertext)"

text \<open>The two nested loops over \<open>i\<close> and \<open>j > i\<close> for one list of positions.\<close>

definition position_distances :: "nat list \<Rightarrow> int list" where
  "position_distances positions =
     concat (map (\<lambda>i. map (\<lambda>j. int (positions ! j) - int (positions ! i))
                         [i + 1..<length positions])
                 [0..<length positions])"

definition distances :: "pystr \<Rightarrow> int list" where
  "distances ciphertext =
     concat (map (\<lambda>(k, positions). position_distances positions) (repeated_seqs ciphertext))"

text \<open>The list from which \<open>get_factors\<close> builds its set.\<close>

definition get_factors :: "int \<Rightarrow> int \<Rightarrow> int list" where
  "get_factors max_key_length n = filter (\<lambda>i. n mod i = 0) [2..max_key_length]"

text \<open>
  Python leaves the order in which a \<open>set\<close> is iterated to the implementation. It is the
  parameter \<open>set_order\<close>: from the list the set is built from to the sequence of elements the
  loop \<open>for f in factors\<close> sees. \<open>set_enumeration\<close> says what every implementation
  guarantees: each element of the set once.
\<close>

definition set_enumeration :: "(int list \<Rightarrow> int list) \<Rightarrow> bool" where
  "set_enumeration set_order = (\<forall>xs. distinct (set_order xs) \<and> set (set_order xs) = set xs)"

text \<open>
  The order of increasing value, which is the order CPython yields for a set of five or more
  integers between 0 and 31 (they sit in a table of 32 slots, each at the slot of its value).
\<close>

definition ascending :: "int list \<Rightarrow> int list" where
  "ascending xs = sort (remdups xs)"

definition common_factors :: "(int list \<Rightarrow> int list) \<Rightarrow> int \<Rightarrow> int list \<Rightarrow> (int \<times> int) list" where
  "common_factors set_order max_key_length ds =
     fold (\<lambda>d cf. fold (\<lambda>f cf. counter_incr cf f) (set_order (get_factors max_key_length d)) cf)
       ds []"

text \<open>
  \<open>Counter.most_common(n)\<close> is \<open>heapq.nlargest(n, items, key=count)\<close>, documented as
  \<open>sorted(items, key=count, reverse=True)[:n]\<close>: a stable sort by decreasing count.
\<close>

definition most_common :: "nat \<Rightarrow> ('a \<times> int) list \<Rightarrow> ('a \<times> int) list" where
  "most_common n c = take n (sort_key (\<lambda>(k, v). - v) c)"

definition kasiski_examination :: "(int list \<Rightarrow> int list) \<Rightarrow> pystr \<Rightarrow> int \<Rightarrow> int list" where
  "kasiski_examination set_order ciphertext max_key_length =
     map fst (most_common 3 (common_factors set_order max_key_length (distances ciphertext)))"

text \<open>
  The vote count of the specification: one vote for each distance the divisor evenly divides.
  The scan order of the factors: every factor of every distance, in the order the loops meet
  them; \<open>first_seen\<close> is the position of the first encounter.
\<close>

definition votes :: "int list \<Rightarrow> int \<Rightarrow> int" where
  "votes ds f = int (length (filter (\<lambda>d. d mod f = 0) ds))"

definition factor_scan :: "(int list \<Rightarrow> int list) \<Rightarrow> int \<Rightarrow> int list \<Rightarrow> int list" where
  "factor_scan set_order max_key_length ds =
     concat (map (\<lambda>d. set_order (get_factors max_key_length d)) ds)"

definition first_seen :: "'a list \<Rightarrow> 'a \<Rightarrow> nat" where
  "first_seen xs x = length (takeWhile (\<lambda>y. y \<noteq> x) xs)"

text \<open>
  The text as the specification reads it. Two positions start the same 3-letter substring when
  the three characters from them agree. The distances are the pairwise forward distances between
  the occurrences of each 3-letter substring, taken substring by substring in the order of their
  first occurrences, and for each substring pair by pair: for every occurrence \<open>i\<close>, in order,
  every later occurrence \<open>j\<close>, in order. The factor scan runs through the distances and, for
  each, through its divisors in \<open>[2, max_key_length]\<close> in the iteration order of the set.
\<close>

definition same_trigram :: "pystr \<Rightarrow> nat \<Rightarrow> nat \<Rightarrow> bool" where
  "same_trigram s i j = (s ! i = s ! j \<and> s ! (i + 1) = s ! (j + 1) \<and> s ! (i + 2) = s ! (j + 2))"

definition spec_distances :: "pystr \<Rightarrow> int list" where
  "spec_distances s =
     concat (map (\<lambda>p.
        concat (map (\<lambda>i. map (\<lambda>j. int j - int i)
                              (filter (\<lambda>j. same_trigram s i j) [i + 1..<length s - 2]))
                    (filter (\<lambda>i. same_trigram s p i) [0..<length s - 2])))
        (filter (\<lambda>p. \<forall>q\<in>set [0..<p]. \<not> same_trigram s q p) [0..<length s - 2]))"

definition spec_scan :: "(int list \<Rightarrow> int list) \<Rightarrow> int \<Rightarrow> pystr \<Rightarrow> int list" where
  "spec_scan set_order max_key_length s =
     concat (map (\<lambda>d. set_order (filter (\<lambda>f. d mod f = 0) [2..max_key_length]))
                 (spec_distances s))"

section \<open>The orchestrator: \<open>crack_vigenere\<close>\<close>

text \<open>\<open>re.sub(r'[^a-zA-Z]', '', ciphertext).lower()\<close>\<close>

definition clean_text :: "pystr \<Rightarrow> pystr" where
  "clean_text ciphertext = lower (filter ascii_letter ciphertext)"

text \<open>
  One attempt is the body both loops share: cosets, one key character per coset, decryption of
  the original ciphertext. What is printed for the user is the attempt: key length, key and
  decrypted text.
\<close>

type_synonym attempt = "int \<times> pystr \<times> pystr"

definition make_key :: "pystr list \<Rightarrow> py_error + pystr" where
  "make_key cosets =
     collect (map (\<lambda>coset. case frequency_analysis coset of
                              Inl e \<Rightarrow> Inl e
                            | Inr shift \<Rightarrow> Inr (nat (shift + 97))) cosets)"

definition try_key_length :: "pystr \<Rightarrow> pystr \<Rightarrow> int \<Rightarrow> py_error + pystr \<times> pystr" where
  "try_key_length ciphertext cleaned key_length =
     (case get_cosets cleaned key_length of
        Inl e \<Rightarrow> Inl e
      | Inr cosets \<Rightarrow>
         (case make_key cosets of
            Inl e \<Rightarrow> Inl e
          | Inr key \<Rightarrow>
             (case decrypt_vigenere ciphertext key of
                Inl e \<Rightarrow> Inl e
              | Inr decrypted \<Rightarrow> Inr (key, decrypted))))"

text \<open>
  \<open>input(...)\<close> is the confirmation oracle. The user answers after reading what has been printed,
  so the oracle is a function of the attempts made so far, the current one last; \<open>None\<close> is the
  end of the input, on which \<open>input\<close> raises \<open>EOFError\<close>. The attempts are threaded through the
  loops as the log of the queries.
\<close>

type_synonym confirmation = "attempt list \<Rightarrow> pystr option"

definition accepts :: "pystr \<Rightarrow> bool" where
  "accepts response = (lower response = [121])"

fun ranked_loop ::
  "confirmation \<Rightarrow> pystr \<Rightarrow> pystr \<Rightarrow> int list \<Rightarrow> attempt list
     \<Rightarrow> py_error + attempt list \<times> (pystr \<times> pystr) option" where
  "ranked_loop ask ciphertext cleaned [] log = Inr (log, None)"
| "ranked_loop ask ciphertext cleaned (key_length # more) log =
     (case try_key_length ciphertext cleaned key_length of
        Inl e \<Rightarrow> Inl e
      | Inr (key, decrypted) \<Rightarrow>
         (case ask (log @ [(key_length, key, decrypted)]) of
            None \<Rightarrow> Inl EOFError
          | Some response \<Rightarrow>
             if accepts response
             then Inr (log @ [(key_length, key, decrypted)], Some (key, decrypted))
             else ranked_loop ask ciphertext cleaned more (log @ [(key_length, key, decrypted)])))"

fun manual_loop ::
  "confirmation \<Rightarrow> pystr \<Rightarrow> pystr \<Rightarrow> int list \<Rightarrow> int list \<Rightarrow> attempt list
     \<Rightarrow> py_error + attempt list \<times> (pystr \<times> pystr) option" where
  "manual_loop ask ciphertext cleaned possible_lengths [] log = Inr (log, None)"
| "manual_loop ask ciphertext cleaned possible_lengths (key_length # more) log =
     (if key_length \<notin> set possible_lengths then
        (case try_key_length ciphertext cleaned key_length of
           Inl e \<Rightarrow> Inl e
         | Inr (key, decrypted) \<Rightarrow>
            (case ask (log @ [(key_length, key, decrypted)]) of
               None \<Rightarrow> Inl EOFError
             | Some response \<Rightarrow>
                if accepts response
                then Inr (log @ [(key_length, key, decrypted)], Some (key, decrypted))
                else manual_loop ask ciphertext cleaned possible_lengths more
                       (log @ [(key_length, key, decrypted)])))
      else manual_loop ask ciphertext cleaned possible_lengths more log)"

text \<open>
  The result is the pair the source returns, \<open>(key, decrypted)\<close> or \<open>(None, None)\<close>, together
  with the log of the attempts put before the oracle.
\<close>

definition crack_vigenere ::
  "(int list \<Rightarrow> int list) \<Rightarrow> confirmation \<Rightarrow> pystr
     \<Rightarrow> py_error + attempt list \<times> pystr option \<times> pystr option" where
  "crack_vigenere set_order ask ciphertext =
     (let cleaned = clean_text ciphertext;
          possible_lengths = kasiski_examination set_order cleaned 15
      in case ranked_loop ask ciphertext cleaned possible_lengths [] of
           Inl e \<Rightarrow> Inl e
         | Inr (log, Some (key, decrypted)) \<Rightarrow> Inr (log, Some key, Some decrypted)
         | Inr (log, None) \<Rightarrow>
            (case manual_loop ask ciphertext cleaned possible_lengths [5..15] log of
               Inl e \<Rightarrow> Inl e
             | Inr (log', Some (key, decrypted)) \<Rightarrow> Inr (log', Some key, Some decrypted)
             | Inr (log', None) \<Rightarrow> Inr (log', None, None)))"

text \<open>
  The lengths the specification has the orchestrator try: the ranked candidates, then the
  lengths of 5..15 that are not among them.
\<close>

definition lengths_to_try :: "int list \<Rightarrow> int list" where
  "lengths_to_try ranked = ranked @ filter (\<lambda>k. k \<notin> set ranked) [5..15]"

text \<open>The attempts for a list of key lengths: key length, key and decrypted text of each.\<close>

definition attempts_for :: "pystr \<Rightarrow> int list \<Rightarrow> attempt list" where
  "attempts_for ciphertext ks =
     concat (map (\<lambda>k. case try_key_length ciphertext (clean_text ciphertext) k of
                         Inl e \<Rightarrow> []
                       | Inr (key, decrypted) \<Rightarrow> [(k, key, decrypted)]) ks)"

text \<open>Oracles for concrete runs: one that rejects every attempt, one that accepts the first.\<close>

definition always_reject :: confirmation where
  "always_reject log = Some [110]"

definition accept_first :: confirmation where
  "accept_first log = Some [121]"

section \<open>Properties of the codec\<close>

lemma str_contains_single: "str_contains s [x] = (x \<in> set s)"
  by (induction s) auto

lemma set_ascii_lowercase: "(x \<in> set ascii_lowercase) = (97 \<le> x \<and> x \<le> 122)"
proof
  assume "x \<in> set ascii_lowercase"
  then show "97 \<le> x \<and> x \<le> 122"
    by (auto simp: ascii_lowercase_def str_def)
next
  assume "97 \<le> x \<and> x \<le> 122"
  then show "x \<in> set ascii_lowercase"
    by (simp add: ascii_lowercase_def str_def) arith
qed

lemma str_contains_second: "str_contains s (x # y # r) \<Longrightarrow> y \<in> set s"
proof (induction s)
  case Nil
  then show ?case by simp
next
  case (Cons a s)
  then show ?case by (cases s) auto
qed

lemma letter_test: "str_contains ascii_lowercase (lower_cp c) = codec_letter c"
proof (cases "c = 0x130")
  case True
  have "\<not> str_contains ascii_lowercase [0x69, 0x307]"
    using str_contains_second [of ascii_lowercase "0x69" "0x307" "[]"]
    by (auto simp: set_ascii_lowercase)
  with True show ?thesis
    by (simp add: lower_cp_def codec_letter_def)
next
  case False
  then show ?thesis
    by (auto simp: lower_cp_def codec_letter_def str_contains_single set_ascii_lowercase)
qed

lemma lower_Nil: "lower [] = []"
  by (simp add: lower_def)

lemma decrypt_loop_empty_key:
  "decrypt_loop [] n s =
     (if (\<exists>c\<in>set s. codec_letter c) then Inl StopIteration else Inr s)"
proof (induction s)
  case Nil
  show ?case by simp
next
  case (Cons c cs)
  show ?case
  proof (cases "codec_letter c")
    case True
    then show ?thesis by (simp add: letter_test cycle_next_def)
  next
    case False
    then show ?thesis using Cons.IH by (simp add: letter_test)
  qed
qed

subsection \<open>The empty key\<close>

text \<open>
  Claim C7, as the code has it. With a zero-length key \<open>decrypt_vigenere\<close> has no check of its
  own: the exception is the \<open>StopIteration\<close> of \<open>next(key_cycle)\<close>, raised at the first letter
  of the text. A text with an ASCII letter fails; a text in which the codec finds no letter is
  returned unchanged, without any error.
\<close>

theorem decrypt_vigenere_empty_key:
  "((\<exists>c\<in>set ciphertext. ascii_letter c) \<longrightarrow>
      decrypt_vigenere ciphertext [] = Inl StopIteration) \<and>
   ((\<forall>c\<in>set ciphertext. \<not> codec_letter c) \<longrightarrow>
      decrypt_vigenere ciphertext [] = Inr ciphertext)"
  by (auto simp: decrypt_vigenere_def lower_Nil decrypt_loop_empty_key
        codec_letter_def ascii_letter_def)

theorem decrypt_vigenere_empty_key_witness:
  "decrypt_vigenere (str ''a1'') [] = Inl StopIteration \<and>
   decrypt_vigenere (str ''1 2'') [] = Inr (str ''1 2'')"
  using decrypt_vigenere_empty_key [of "str ''a1''"] decrypt_vigenere_empty_key [of "str ''1 2''"]
  by (simp add: str_def ascii_letter_def codec_letter_def)

text \<open>
  Claim C7 as stated fails: the text \<open>123\<close> with the empty key is returned as it is.
\<close>

theorem decrypt_vigenere_empty_key_counterexample:
  "decrypt_vigenere [49, 50, 51] [] = Inr [49, 50, 51]"
  by (simp add: decrypt_vigenere_def lower_Nil letter_test codec_letter_def)

subsection \<open>The Kelvin sign\<close>

lemmas codec_eval = decrypt_vigenere_def lower_def lower_cp_def str_contains_single
  set_ascii_lowercase cycle_next_def isupper_cp_def upper_cp_def unshift_def

text \<open>
  Claim C10 (the key \<open>a\<close>, shift 0, is an identity) at the text that consists of the Kelvin sign
  U+212A: its \<open>lower()\<close> is \<open>k\<close>, so the codec takes it for a letter, and since it is upper case
  the output is the ASCII letter \<open>K\<close>, U+004B. The text is not returned unchanged.
\<close>

theorem decrypt_vigenere_kelvin_identity_key:
  "decrypt_vigenere [0x212A] [97] = Inr [75]"
  by (simp add: codec_eval)

text \<open>
  Claim C6 (non-ASCII letters pass through and consume no key position) at the text
  U+212A, \<open>b\<close> with the key \<open>ab\<close>: the Kelvin sign becomes \<open>K\<close> and takes the key character
  \<open>a\<close>, so that \<open>b\<close> is decrypted with the key character \<open>b\<close>, to \<open>a\<close>.
\<close>

theorem decrypt_vigenere_kelvin_consumes_key:
  "decrypt_vigenere [0x212A, 98] [97, 98] = Inr [75, 97]"
  by (simp add: codec_eval)

text \<open>
  Claim C1 (round trip) at the text U+212A with the key \<open>a\<close>: encryption leaves the Kelvin sign,
  which is no ASCII letter, and decryption turns it into \<open>K\<close>.
\<close>

theorem round_trip_kelvin:
  "spec_encrypt [0x212A] [97] = Some [0x212A] \<and> decrypt_vigenere [0x212A] [97] = Inr [75]"
  by (simp add: codec_eval spec_encrypt_def ascii_letter_def)

section \<open>Properties of \<open>get_cosets\<close>\<close>

lemma collect_Inr: "collect (map (\<lambda>i. Inr (f i)) xs) = Inr (map f xs)"
  by (induction xs) auto

text \<open>
  Coset \<open>i\<close> of a text for \<open>n\<close> cosets, in closed form: the elements at \<open>i\<close>, \<open>i + n\<close>,
  \<open>i + 2n\<close>, ...
\<close>

definition coset_of :: "'a list \<Rightarrow> nat \<Rightarrow> nat \<Rightarrow> 'a list" where
  "coset_of s n i = map (\<lambda>j. s ! (i + j * n)) [0..<(length s + n - 1 - i) div n]"

lemma slice_positive:
  assumes "0 < n" 
  shows "slice_from_step s i (int n) = Inr (coset_of s n i)"
proof (cases "i < length s")
  case True
  have "(length s + n - 1 - i) div n = (length s - i - 1 + n) div n"
    using True assms by (intro arg_cong[where f="\<lambda>x. x div n"]) arith
  also have "\<dots> = (length s - i - 1) div n + 1"
    using assms by (intro div_add_self2) simp
  finally show ?thesis using True assms by (simp add: slice_from_step_def coset_of_def)
next
  case False
  then have "length s + n - 1 - i < n" using assms by arith
  then have "(length s + n - 1 - i) div n = 0" by simp
  then show ?thesis using False assms by (simp add: slice_from_step_def coset_of_def)
qed

lemma get_cosets_positive:
  assumes "1 \<le> k"
  shows "get_cosets s k = Inr (map (coset_of s (nat k)) [0..<nat k])"
proof -
  have k: "k = int (nat k)" "0 < nat k" using assms by auto
  have "\<And>i. slice_from_step s i k = Inr (coset_of s (nat k) i)"
    using slice_positive[OF k(2), of s] k(1) by simp
  then have "get_cosets s k = collect (map (\<lambda>i. Inr (coset_of s (nat k) i)) [0..<nat k])"
    by (simp only: get_cosets_def)
  then show ?thesis by (simp only: collect_Inr)
qed

lemma get_cosets_nonpositive: "k \<le> 0 \<Longrightarrow> get_cosets s k = Inr []"
  by (simp add: get_cosets_def)

lemma length_coset_of: "length (coset_of s n i) = (length s + n - 1 - i) div n"
  by (simp add: coset_of_def)

lemma floor_sum: "0 < n \<Longrightarrow> (\<Sum>i<n. (L + i) div n) = (L::nat)"
proof (induction L)
  case 0
  then show ?case by simp
next
  case (Suc L)
  let ?g = "\<lambda>i. (L + i) div n"
  have shift: "(\<Sum>i<Suc n. ?g i) = ?g 0 + (\<Sum>i<n. ?g (Suc i))"
    by (rule sum.lessThan_Suc_shift)
  have last: "?g n = Suc (?g 0)"
    using Suc.prems div_add_self2[of n L] by simp
  have "(\<Sum>i<n. (Suc L + i) div n) = (\<Sum>i<n. ?g (Suc i))" by simp
  also have "\<dots> = (\<Sum>i<Suc n. ?g i) - ?g 0" using shift by arith
  also have "\<dots> = (\<Sum>i<n. ?g i) + ?g n - ?g 0" by simp
  also have "\<dots> = L + Suc (?g 0) - ?g 0" using Suc.IH[OF Suc.prems] last by arith
  also have "\<dots> = Suc L" by simp
  finally show ?case .
qed

lemma sum_coset_lengths:
  assumes "0 < n"
  shows "sum_list (map length (map (coset_of s n) [0..<n])) = length s"
proof -
  let ?L = "length s"
  have "sum_list (map length (map (coset_of s n) [0..<n])) = (\<Sum>i<n. (?L + n - 1 - i) div n)"
    by (simp add: length_coset_of comp_def sum_list_sum_nth atLeast0LessThan)
  also have "\<dots> = (\<Sum>i<n. (?L + (n - Suc i)) div n)"
    by (intro sum.cong) auto
  also have "\<dots> = (\<Sum>i<n. (?L + i) div n)"
    by (rule sum.nat_diff_reindex)
  also have "\<dots> = ?L" by (rule floor_sum[OF assms])
  finally show ?thesis .
qed

lemma coset_length_bounds:
  assumes "0 < n" "i < n"
  shows "length (coset_of s n i) = length s div n \<or> length (coset_of s n i) = length s div n + 1"
proof -
  have "length s div n \<le> (length s + n - 1 - i) div n"
    using assms by (intro div_le_mono) arith
  moreover have "(length s + n - 1 - i) div n \<le> (length s + n) div n"
    by (intro div_le_mono) arith
  moreover have "(length s + n) div n = length s div n + 1"
    using assms div_add_self2[of n "length s"] by simp
  ultimately show ?thesis by (simp add: length_coset_of) arith
qed

lemma round_robin_cosets:
  assumes "0 < n"
  shows "round_robin (map (coset_of s n) [0..<n]) = s"
proof (rule nth_equalityI)
  show len: "length (round_robin (map (coset_of s n) [0..<n])) = length s"
    using sum_coset_lengths[OF assms, of s] by (simp add: round_robin_def)
  fix j assume "j < length (round_robin (map (coset_of s n) [0..<n]))"
  then have j: "j < length s" using len by simp
  have m: "j mod n < n" using assms by simp
  define q where "q = j div n"
  define r where "r = j mod n"
  define X where "X = q * n"
  have "X + r = j" by (simp add: X_def q_def r_def)
  moreover have "r < n" using m by (simp add: r_def)
  ultimately have "X + n \<le> length s + n - 1 - r" using j by arith
  then have "(q + 1) * n \<le> length s + n - 1 - r" by (simp add: X_def)
  then have "q + 1 \<le> (length s + n - 1 - r) div n"
    using assms by (simp only: less_eq_div_iff_mult_less_eq)
  then have "j div n < (length s + n - 1 - j mod n) div n"
    by (simp add: q_def r_def)
  then have "coset_of s n (j mod n) ! (j div n) = s ! (j mod n + j div n * n)"
    by (simp add: coset_of_def)
  then show "round_robin (map (coset_of s n) [0..<n]) ! j = s ! j"
    using j m sum_coset_lengths[OF assms, of s] by (simp add: round_robin_def)
qed


text \<open>
  Claim C3. For a key length \<open>N \<ge> 1\<close>, \<open>get_cosets\<close> returns exactly \<open>N\<close> cosets; their
  round-robin interleaving is the text; their lengths sum to the length of the text; each has
  \<open>len(C) // N\<close> or \<open>len(C) // N + 1\<close> elements. It holds for lists of any elements, so for
  strings of lowercase letters.
\<close>

theorem get_cosets_reconstruction:
  assumes "1 \<le> key_length"
  shows "\<exists>cosets. get_cosets ciphertext key_length = Inr cosets \<and>
           length cosets = nat key_length \<and>
           round_robin cosets = ciphertext \<and>
           sum_list (map length cosets) = length ciphertext \<and>
           (\<forall>c\<in>set cosets. length c = length ciphertext div nat key_length \<or>
                             length c = length ciphertext div nat key_length + 1)"
proof -
  let ?n = "nat key_length"
  let ?cs = "map (coset_of ciphertext ?n) [0..<?n]"
  have n: "0 < ?n" using assms by simp
  have "get_cosets ciphertext key_length = Inr ?cs"
    by (rule get_cosets_positive[OF assms])
  moreover have "length ?cs = ?n" by simp
  moreover have "round_robin ?cs = ciphertext" by (rule round_robin_cosets[OF n])
  moreover have "sum_list (map length ?cs) = length ciphertext"
    by (rule sum_coset_lengths[OF n])
  moreover have "\<forall>c\<in>set ?cs. length c = length ciphertext div ?n \<or>
                             length c = length ciphertext div ?n + 1"
  proof (intro ballI)
    fix c assume "c \<in> set ?cs"
    then obtain i where "i < ?n" "c = coset_of ciphertext ?n i" by auto
    then show "length c = length ciphertext div ?n \<or> length c = length ciphertext div ?n + 1"
      using coset_length_bounds[OF n, of i ciphertext] by simp
  qed
  ultimately show ?thesis by blast
qed

theorem get_cosets_reconstruction_witness:
  "\<exists>cosets. get_cosets (str ''abcdefg'') 3 = Inr cosets \<and>
           length cosets = 3 \<and>
           round_robin cosets = str ''abcdefg'' \<and>
           sum_list (map length cosets) = length (str ''abcdefg'') \<and>
           (\<forall>c\<in>set cosets. length c = length (str ''abcdefg'') div 3 \<or>
                             length c = length (str ''abcdefg'') div 3 + 1)"
proof -
  have "(1::int) \<le> 3" by simp
  from get_cosets_reconstruction[OF this, of "str ''abcdefg''"]
  show ?thesis by simp
qed

text \<open>
  Claim C8, as the code has it. \<open>get_cosets\<close> never fails, whatever the key length: for \<open>N = 0\<close>
  (and a negative \<open>N\<close>) \<open>range(N)\<close> is empty, the slice with step 0 is never evaluated, and the
  result is the empty list of cosets.
\<close>

theorem get_cosets_total:
  "(\<exists>cosets. get_cosets ciphertext key_length = Inr cosets \<and> length cosets = nat key_length) \<and>
   get_cosets ciphertext 0 = Inr []"
proof (cases "1 \<le> key_length")
  case True
  then show ?thesis by (simp add: get_cosets_positive get_cosets_nonpositive)
next
  case False
  then show ?thesis by (simp add: get_cosets_nonpositive)
qed

theorem get_cosets_total_witness:
  "(\<exists>cosets. get_cosets (str ''abc'') 2 = Inr cosets \<and> length cosets = 2) \<and>
   get_cosets (str ''abc'') 0 = Inr []"
  using get_cosets_total[of "str ''abc''" 2] by simp

text \<open>
  Claim C8 as stated fails: with \<open>N = 0\<close> the text \<open>abc\<close> yields a value, the empty list, and no
  error.
\<close>

theorem get_cosets_zero_counterexample:
  "get_cosets (str ''abc'') 0 = Inr []"
  by (simp add: get_cosets_def)

section \<open>Properties of \<open>frequency_analysis\<close>\<close>

text \<open>The count a counter holds for a key, 0 for a key it does not hold.\<close>

definition cnt :: "('a \<times> int) list \<Rightarrow> 'a \<Rightarrow> int" where
  "cnt c k = (case map_of c k of None \<Rightarrow> 0 | Some v \<Rightarrow> v)"

lemma keys_counter_incr: "map fst (counter_incr c x) = (if x \<in> fst ` set c then map fst c else map fst c @ [x])"
  by (induction c x rule: counter_incr.induct) auto

lemma set_keys_counter_incr: "fst ` set (counter_incr c x) = insert x (fst ` set c)"
  by (induction c x rule: counter_incr.induct) auto

lemma distinct_counter_incr: "distinct (map fst c) \<Longrightarrow> distinct (map fst (counter_incr c x))"
  by (simp add: keys_counter_incr)

lemma cnt_counter_incr: "cnt (counter_incr c x) k = cnt c k + (if k = x then 1 else 0)"
  by (induction c x rule: counter_incr.induct) (auto simp: cnt_def)

lemma counter_fold:
  "distinct (map fst c) \<Longrightarrow>
   distinct (map fst (fold (\<lambda>x c. counter_incr c x) xs c)) \<and>
   fst ` set (fold (\<lambda>x c. counter_incr c x) xs c) = fst ` set c \<union> set xs \<and>
   (\<forall>k. cnt (fold (\<lambda>x c. counter_incr c x) xs c) k = cnt c k + int (count_list xs k))"
proof (induction xs arbitrary: c)
  case Nil
  then show ?case by simp
next
  case (Cons x xs)
  from Cons.IH[OF distinct_counter_incr[OF Cons.prems, of x]]
  show ?case by (auto simp: set_keys_counter_incr cnt_counter_incr)
qed

lemma cnt_Counter: "cnt (Counter xs) k = int (count_list xs k)"
  using counter_fold[of "[]" xs] by (simp add: Counter_def cnt_def)

lemma keys_Counter: "fst ` set (Counter xs) = set xs" "distinct (map fst (Counter xs))"
  using counter_fold[of "[]" xs] by (simp_all add: Counter_def)

lemma cnt_Cons: "cnt ((k, n) # c) k' = (if k' = k then n else cnt c k')"
  by (simp add: cnt_def)

lemma weighted_sum_counter:
  "distinct (map fst c) \<Longrightarrow>
   (\<Sum>(k, n) \<leftarrow> c. n * w k) = (\<Sum>k \<in> fst ` set c. cnt c k * w k)"
proof (induction c)
  case Nil
  then show ?case by simp
next
  case (Cons p c)
  obtain k n where p: "p = (k, n)" by (cases p)
  have notin: "k \<notin> fst ` set c" and d: "distinct (map fst c)" using Cons.prems p by auto
  have "(\<Sum>k' \<in> fst ` set (p # c). cnt (p # c) k' * w k') =
        cnt (p # c) k * w k + (\<Sum>k' \<in> fst ` set c. cnt (p # c) k' * w k')"
    using notin p by simp
  also have "(\<Sum>k' \<in> fst ` set c. cnt (p # c) k' * w k') = (\<Sum>k' \<in> fst ` set c. cnt c k' * w k')"
    using notin p by (intro sum.cong) (auto simp: cnt_Cons)
  finally show ?case using Cons.IH[OF d] p by (simp add: cnt_Cons)
qed


lemma set_ENGLISH_FREQ: "(x \<in> set ENGLISH_FREQ) = (97 \<le> x \<and> x \<le> 122)"
proof
  assume "x \<in> set ENGLISH_FREQ"
  then show "97 \<le> x \<and> x \<le> 122"
    by (auto simp: ENGLISH_FREQ_def str_def)
next
  assume "97 \<le> x \<and> x \<le> 122"
  then show "x \<in> set ENGLISH_FREQ"
    by (simp add: ENGLISH_FREQ_def str_def) arith
qed

lemma list_index_found:
  "x \<in> set xs \<Longrightarrow> list_index xs x = Inr (int (length (takeWhile (\<lambda>y. y \<noteq> x) xs)))"
  by (induction xs) auto

lemma unshift_range: "97 \<le> unshift x shift \<and> unshift x shift \<le> 122"
proof -
  have "0 \<le> (x - 97 - shift) mod 26" "(x - 97 - shift) mod 26 < 26" by simp_all
  then show ?thesis unfolding unshift_def by linarith
qed

lemma score_loop_sum:
  "score_loop counts shift score =
     Inr (score + (\<Sum>(c, n) \<leftarrow> counts. n * (26 - rank (unshift (int c) shift))))"
proof (induction counts arbitrary: score)
  case Nil
  then show ?case by simp
next
  case (Cons p counts)
  obtain c n where p: "p = (c, n)" by (cases p)
  have mem: "unshift (int c) shift \<in> set ENGLISH_FREQ"
    using unshift_range[of "int c" shift] by (simp add: set_ENGLISH_FREQ)
  show ?case
    using Cons.IH mem by (simp add: p list_index_found rank_def Let_def)
qed

lemma score_loop_spec: "score_loop (Counter coset) shift 0 = Inr (spec_score coset shift)"
proof -
  let ?w = "\<lambda>c. 26 - rank (unshift (int c) shift)"
  have "(\<Sum>(c, n) \<leftarrow> Counter coset. n * ?w c) = (\<Sum>c \<in> fst ` set (Counter coset). cnt (Counter coset) c * ?w c)"
    by (rule weighted_sum_counter) (rule keys_Counter)
  also have "\<dots> = (\<Sum>c \<in> set coset. int (count_list coset c) * ?w c)"
    by (simp add: keys_Counter cnt_Counter)
  also have "\<dots> = (\<Sum>c \<leftarrow> remdups coset. int (count_list coset c) * ?w c)"
    by (simp add: sum_list_distinct_conv_sum_set)
  finally show ?thesis
    by (simp add: score_loop_sum spec_score_def unshift_def)
qed

lemma rank_le: "rank x \<le> 26"
proof -
  have "length (takeWhile (\<lambda>y. y \<noteq> x) ENGLISH_FREQ) \<le> length ENGLISH_FREQ"
    by (rule length_takeWhile_le)
  then show ?thesis by (simp add: rank_def ENGLISH_FREQ_def str_def)
qed

lemma spec_score_nonneg: "0 \<le> spec_score coset s"
  unfolding spec_score_def
  by (rule sum_list_nonneg) (auto simp: rank_le)


lemma shift_loop_argmax:
  "\<exists>b' bs'. shift_loop (Counter coset) shifts (b, bs) = Inr (b', bs') \<and>
     (\<forall>s\<in>set shifts. spec_score coset s \<le> bs') \<and>
     ((b' = b \<and> bs' = bs) \<or>
      (\<exists>pre post. shifts = pre @ b' # post \<and> bs' = spec_score coset b' \<and> bs < bs' \<and>
         (\<forall>s\<in>set pre. spec_score coset s < bs')))"
proof (induction shifts arbitrary: b bs)
  case Nil
  then show ?case by simp
next
  case (Cons s shifts)
  let ?f = "spec_score coset"
  show ?case
  proof (cases "?f s > bs")
    case True
    from Cons.IH[of s "?f s"] obtain b' bs' where
      r: "shift_loop (Counter coset) shifts (s, ?f s) = Inr (b', bs')"
      and le: "\<forall>t\<in>set shifts. ?f t \<le> bs'"
      and alt: "(b' = s \<and> bs' = ?f s) \<or>
        (\<exists>pre post. shifts = pre @ b' # post \<and> bs' = ?f b' \<and> ?f s < bs' \<and>
           (\<forall>t\<in>set pre. ?f t < bs'))"
      by blast
    have run: "shift_loop (Counter coset) (s # shifts) (b, bs) = Inr (b', bs')"
      using True r by (simp add: score_loop_spec)
    from alt show ?thesis
    proof
      assume a: "b' = s \<and> bs' = ?f s"
      then have "s # shifts = [] @ b' # shifts \<and> bs' = ?f b' \<and> bs < bs' \<and>
          (\<forall>t\<in>set []. ?f t < bs')"
        using True by simp
      then show ?thesis using run le a by (metis order_refl set_ConsD)
    next
      assume "\<exists>pre post. shifts = pre @ b' # post \<and> bs' = ?f b' \<and> ?f s < bs' \<and>
           (\<forall>t\<in>set pre. ?f t < bs')"
      then obtain pre post where pp: "shifts = pre @ b' # post" "bs' = ?f b'" "?f s < bs'"
          "\<forall>t\<in>set pre. ?f t < bs'" by blast
      have "s # shifts = (s # pre) @ b' # post \<and> bs' = ?f b' \<and> bs < bs' \<and>
          (\<forall>t\<in>set (s # pre). ?f t < bs')"
        using pp True by auto
      moreover have "\<forall>t\<in>set (s # shifts). ?f t \<le> bs'" using le pp(3) by auto
      ultimately show ?thesis using run by blast
    qed
  next
    case False
    from Cons.IH[of b bs] obtain b' bs' where
      r: "shift_loop (Counter coset) shifts (b, bs) = Inr (b', bs')"
      and le: "\<forall>t\<in>set shifts. ?f t \<le> bs'"
      and alt: "(b' = b \<and> bs' = bs) \<or>
        (\<exists>pre post. shifts = pre @ b' # post \<and> bs' = ?f b' \<and> bs < bs' \<and>
           (\<forall>t\<in>set pre. ?f t < bs'))"
      by blast
    have run: "shift_loop (Counter coset) (s # shifts) (b, bs) = Inr (b', bs')"
      using False r by (simp add: score_loop_spec)
    from alt show ?thesis
    proof
      assume a: "b' = b \<and> bs' = bs"
      then have "\<forall>t\<in>set (s # shifts). ?f t \<le> bs'" using le False by auto
      then show ?thesis using run a by blast
    next
      assume "\<exists>pre post. shifts = pre @ b' # post \<and> bs' = ?f b' \<and> bs < bs' \<and>
           (\<forall>t\<in>set pre. ?f t < bs')"
      then obtain pre post where pp: "shifts = pre @ b' # post" "bs' = ?f b'" "bs < bs'"
          "\<forall>t\<in>set pre. ?f t < bs'" by blast
      have "s # shifts = (s # pre) @ b' # post \<and> bs' = ?f b' \<and> bs < bs' \<and>
          (\<forall>t\<in>set (s # pre). ?f t < bs')"
        using pp False by auto
      moreover have "\<forall>t\<in>set (s # shifts). ?f t \<le> bs'" using le pp(3) False by auto
      ultimately show ?thesis using run by blast
    qed
  qed
qed

lemma frequency_analysis_spec:
  "\<exists>r. frequency_analysis coset = Inr r \<and> 0 \<le> r \<and> r \<le> 25 \<and>
     (\<forall>s. 0 \<le> s \<and> s \<le> 25 \<longrightarrow> spec_score coset s \<le> spec_score coset r) \<and>
     (\<forall>s. 0 \<le> s \<and> s < r \<longrightarrow> spec_score coset s < spec_score coset r)"
proof -
  let ?f = "spec_score coset"
  from shift_loop_argmax[of coset "[0..25]" 0 "- 1"] obtain b' bs' where
    r: "shift_loop (Counter coset) [0..25] (0, - 1) = Inr (b', bs')"
    and le: "\<forall>t\<in>set [0..25]. ?f t \<le> bs'"
    and alt: "(b' = 0 \<and> bs' = - 1) \<or>
      (\<exists>pre post. [0..25] = pre @ b' # post \<and> bs' = ?f b' \<and> - 1 < bs' \<and>
         (\<forall>t\<in>set pre. ?f t < bs'))"
    by blast
  have "?f 0 \<le> bs'" using le by simp
  then have "bs' \<noteq> - 1" using spec_score_nonneg[of coset 0] by linarith
  with alt obtain pre post where pp: "[0..25] = pre @ b' # post" "bs' = ?f b'"
      "\<forall>t\<in>set pre. ?f t < bs'" by blast
  have mem: "b' \<in> set [0..25]" by (simp only: pp(1)) simp
  have srt: "sorted (pre @ b' # post)" using sorted_upto[of 0 25] by (simp only: pp(1))
  have early: "?f s < ?f b'" if "0 \<le> s" "s < b'" for s
  proof -
    have "s \<in> set (pre @ b' # post)" using that mem by (simp only: pp(1)[symmetric]) simp
    moreover have "s \<notin> set post" using srt that by (auto simp: sorted_append)
    ultimately have "s \<in> set pre" using that by auto
    then show ?thesis using pp by simp
  qed
  have "frequency_analysis coset = Inr b'" using r by (simp add: frequency_analysis_def)
  then show ?thesis using mem le pp(2) early by auto
qed


text \<open>
  Claim C2. \<open>frequency_analysis\<close> returns a shift \<open>r\<close> in 0..25 whose score is maximal
  among the shifts 0..25, where the score is the specification's sum over the distinct letters of
  \<open>count * (26 - rank)\<close>; every smaller shift has a strictly smaller score, so \<open>r\<close> is the
  smallest shift of maximal score; the empty coset yields shift 0. It holds for every coset, so for
  cosets of lowercase letters.
\<close>

theorem frequency_analysis_maximises:
  "(\<exists>r. frequency_analysis coset = Inr r \<and> 0 \<le> r \<and> r \<le> 25 \<and>
      (\<forall>s. 0 \<le> s \<and> s \<le> 25 \<longrightarrow> spec_score coset s \<le> spec_score coset r) \<and>
      (\<forall>s. 0 \<le> s \<and> s < r \<longrightarrow> spec_score coset s < spec_score coset r)) \<and>
   frequency_analysis [] = Inr 0"
proof -
  from frequency_analysis_spec[of "[]"] obtain r where
    r: "frequency_analysis [] = Inr r" "0 \<le> r"
       "\<forall>s. 0 \<le> s \<and> s < r \<longrightarrow> spec_score [] s < spec_score [] r"
    by blast
  have "spec_score [] s = 0" for s by (simp add: spec_score_def)
  with r(3) have "\<not> 0 < r" by fastforce
  with r(1,2) have "frequency_analysis [] = Inr 0" by simp
  then show ?thesis using frequency_analysis_spec[of coset] by blast
qed

lemma score_eval:
  "spec_score (str ''xz'') 6 = 43" "spec_score (str ''xz'') 21 = 41"
  by (simp_all add: spec_score_def str_def rank_def ENGLISH_FREQ_def)

theorem frequency_analysis_maximises_witness:
  "(\<exists>r. frequency_analysis (str ''xz'') = Inr r \<and> 0 \<le> r \<and> r \<le> 25 \<and>
      spec_score (str ''xz'') 21 \<le> spec_score (str ''xz'') r \<and> r \<noteq> 21) \<and>
   frequency_analysis [] = Inr 0"
proof -
  from frequency_analysis_maximises[of "str ''xz''"] obtain r where
    r: "frequency_analysis (str ''xz'') = Inr r" "0 \<le> r" "r \<le> 25"
       "\<forall>s. 0 \<le> s \<and> s \<le> 25 \<longrightarrow> spec_score (str ''xz'') s \<le> spec_score (str ''xz'') r"
       "\<forall>s. 0 \<le> s \<and> s < r \<longrightarrow> spec_score (str ''xz'') s < spec_score (str ''xz'') r"
    and e: "frequency_analysis [] = Inr 0"
    by blast
  have a: "spec_score (str ''xz'') 21 \<le> spec_score (str ''xz'') r"
    using r(4) by simp
  have "r \<noteq> 21"
  proof
    assume "r = 21"
    then have "spec_score (str ''xz'') 6 < spec_score (str ''xz'') 21"
      using r(5) by simp
    then show False by (simp only: score_eval)
  qed
  with a r(1,2,3) e show ?thesis by blast
qed

section \<open>Properties of \<open>kasiski_examination\<close>\<close>

subsection \<open>The distances\<close>

text \<open>Positions below \<open>m\<close> at which a given trigram starts.\<close>

definition occurrences :: "pystr \<Rightarrow> nat \<Rightarrow> pystr \<Rightarrow> nat list" where
  "occurrences s m k = filter (\<lambda>i. trigram s i = k) [0..<m]"

lemma seq_add_keys: "fst ` set (seq_add d k i) = insert k (fst ` set d)"
  by (induction d k i rule: seq_add.induct) auto

lemma distinct_seq_add: "distinct (map fst d) \<Longrightarrow> distinct (map fst (seq_add d k i))"
proof (induction d k i rule: seq_add.induct)
  case (1 seq i)
  then show ?case by simp
next
  case (2 k v rest seq i)
  then show ?case
    using seq_add_keys[of rest seq i] by (auto simp: image_iff)
qed

lemma map_of_seq_add:
  "map_of (seq_add d k i) =
     (map_of d)(k \<mapsto> (case map_of d k of None \<Rightarrow> [i] | Some v \<Rightarrow> v @ [i]))"
  by (induction d k i rule: seq_add.induct) (auto simp: fun_eq_iff)

text \<open>The dictionary \<open>sequences\<close> after the first \<open>m\<close> rounds of the loop.\<close>

definition scan_to :: "pystr \<Rightarrow> nat \<Rightarrow> (pystr \<times> nat list) list" where
  "scan_to s m = fold (\<lambda>i seqs. seq_add seqs (trigram s i) i) [0..<m] []"

lemma scan_to_Suc: "scan_to s (Suc m) = seq_add (scan_to s m) (trigram s m) m"
  by (simp add: scan_to_def)

lemma scan_to_inv:
  "distinct (map fst (scan_to s m)) \<and>
   (\<forall>k. map_of (scan_to s m) k =
      (if occurrences s m k = [] then None else Some (occurrences s m k)))"
proof (induction m)
  case 0
  show ?case by (simp add: scan_to_def occurrences_def)
next
  case (Suc m)
  have occ: "occurrences s (Suc m) k =
      (if trigram s m = k then occurrences s m k @ [m] else occurrences s m k)" for k
    by (simp add: occurrences_def)
  show ?case
    using Suc by (auto simp: scan_to_Suc distinct_seq_add map_of_seq_add occ)
qed

lemma sequences_entries:
  "((k, v) \<in> set (sequences s)) =
     (v = occurrences s (length s - 2) k \<and> v \<noteq> [])"
proof -
  have seqs: "sequences s = scan_to s (length s - 2)"
    by (simp add: sequences_def scan_to_def)
  have d: "distinct (map fst (sequences s))" using scan_to_inv[of s "length s - 2"] seqs by simp
  have "((k, v) \<in> set (sequences s)) = (map_of (sequences s) k = Some v)"
    using d by simp
  then show ?thesis using scan_to_inv[of s "length s - 2"] seqs by auto
qed

lemma occurrences_sorted: "sorted_wrt (<) (occurrences s m k)"
  unfolding occurrences_def by (rule sorted_wrt_filter) (simp add: sorted_wrt_upt)

lemma set_occurrences: "set (occurrences s m k) = {i. i < m \<and> trigram s i = k}"
  by (auto simp: occurrences_def)

lemma position_distances_set:
  "(d \<in> set (position_distances v)) =
     (\<exists>a b. a < b \<and> b < length v \<and> d = int (v ! b) - int (v ! a))"
  (is "?L = ?R")
proof
  assume ?L
  then obtain a b where "a < length v" "Suc a \<le> b" "b < length v"
      "d = int (v ! b) - int (v ! a)"
    by (auto simp: position_distances_def)
  then have "a < b \<and> b < length v \<and> d = int (v ! b) - int (v ! a)" by simp
  then show ?R by blast
next
  assume ?R
  then obtain a b where ab: "a < b" "b < length v" "d = int (v ! b) - int (v ! a)" by blast
  then have "a < length v" by simp
  with ab show ?L
    by (auto simp: position_distances_def intro!: bexI[where x=a] image_eqI[where x=b])
qed

lemma occurrences_pairs:
  "(\<exists>a b. a < b \<and> b < length (occurrences s m k) \<and>
           d = int (occurrences s m k ! b) - int (occurrences s m k ! a)) =
   (\<exists>i j. i < j \<and> j < m \<and> trigram s i = k \<and> trigram s j = k \<and> d = int j - int i)"
  (is "?L = ?R")
proof
  let ?v = "occurrences s m k"
  assume ?L
  then obtain a b where ab: "a < b" "b < length ?v" "d = int (?v ! b) - int (?v ! a)" by blast
  have "?v ! a < ?v ! b"
    using occurrences_sorted[of s m k] ab by (simp add: sorted_wrt_nth_less)
  moreover have "?v ! a \<in> set ?v" "?v ! b \<in> set ?v" using ab by simp_all
  ultimately show ?R using ab(3) by (auto simp: set_occurrences)
next
  let ?v = "occurrences s m k"
  assume ?R
  then obtain i j where ij: "i < j" "j < m" "trigram s i = k" "trigram s j = k" "d = int j - int i"
    by blast
  then have "i \<in> set ?v" "j \<in> set ?v" by (simp_all add: set_occurrences)
  then obtain a b where ab: "a < length ?v" "?v ! a = i" "b < length ?v" "?v ! b = j"
    by (auto simp: in_set_conv_nth)
  have "a < b"
  proof (rule ccontr)
    assume "\<not> a < b"
    then have "b \<le> a" by simp
    then have "?v ! b \<le> ?v ! a"
      using occurrences_sorted[of s m k] ab(1)
      by (cases "a = b") (auto simp: sorted_wrt_nth_less dest!: le_neq_implies_less intro: less_imp_le)
    then show False using ab ij by simp
  qed
  then show ?L using ab ij by blast
qed

lemma distances_set:
  "(d \<in> set (distances s)) =
   (\<exists>i j. i < j \<and> j + 3 \<le> length s \<and> trigram s i = trigram s j \<and> d = int j - int i)"
  (is "?L = ?R")
proof
  assume ?L
  then obtain k v where kv: "(k, v) \<in> set (sequences s)" "d \<in> set (position_distances v)"
    by (auto simp: distances_def repeated_seqs_def)
  then have v: "v = occurrences s (length s - 2) k" by (simp add: sequences_entries)
  from kv(2) have "\<exists>a b. a < b \<and> b < length v \<and> d = int (v ! b) - int (v ! a)"
    by (simp add: position_distances_set)
  then have "\<exists>i j. i < j \<and> j < length s - 2 \<and> trigram s i = k \<and> trigram s j = k \<and> d = int j - int i"
    unfolding v by (simp only: occurrences_pairs)
  then obtain i j where "i < j" "j < length s - 2" "trigram s i = k" "trigram s j = k" "d = int j - int i"
    by blast
  moreover from this have "j + 3 \<le> length s" by arith
  ultimately have "i < j \<and> j + 3 \<le> length s \<and> trigram s i = trigram s j \<and> d = int j - int i"
    by simp
  then show ?R by blast
next
  assume ?R
  then obtain i j where ij: "i < j" "j + 3 \<le> length s" "trigram s i = trigram s j" "d = int j - int i"
    by blast
  let ?k = "trigram s i"
  let ?v = "occurrences s (length s - 2) ?k"
  have jm: "j < length s - 2" using ij(2) by arith
  then have "\<exists>i' j'. i' < j' \<and> j' < length s - 2 \<and> trigram s i' = ?k \<and> trigram s j' = ?k \<and> d = int j' - int i'"
    using ij by auto
  then have ex: "\<exists>a b. a < b \<and> b < length ?v \<and> d = int (?v ! b) - int (?v ! a)"
    by (simp only: occurrences_pairs)
  then have "d \<in> set (position_distances ?v)" by (simp only: position_distances_set)
  moreover from ex have "length ?v > 1" by auto
  moreover from this have "(?k, ?v) \<in> set (sequences s)"
    by (auto simp: sequences_entries)
  ultimately show ?L by (auto simp: distances_def repeated_seqs_def)
qed

subsection \<open>The votes and their ranking\<close>

lemma fold_nested:
  "fold (\<lambda>d cf. fold g (h d) cf) ds c = fold g (concat (map h ds)) c"
  by (induction ds arbitrary: c) auto

lemma common_factors_Counter:
  "common_factors so M ds = Counter (factor_scan so M ds)"
  by (simp add: common_factors_def Counter_def factor_scan_def fold_nested)

lemma Counter_snoc: "Counter (xs @ [x]) = counter_incr (Counter xs) x"
  by (simp add: Counter_def)

lemma first_seen_append:
  "first_seen (xs @ [x]) a =
     (if a \<in> set xs then first_seen xs a else if a = x then length xs else length xs + 1)"
  by (induction xs) (auto simp: first_seen_def)

lemma first_seen_less: "a \<in> set xs \<Longrightarrow> first_seen xs a < length xs"
  by (induction xs) (auto simp: first_seen_def)

lemma Counter_keys_order:
  "sorted_wrt (\<lambda>a b. first_seen xs a < first_seen xs b) (map fst (Counter xs))"
proof (induction xs rule: rev_induct)
  case Nil
  show ?case by (simp add: Counter_def)
next
  case (snoc x xs)
  let ?K = "map fst (Counter xs)"
  have K: "set ?K = set xs" using keys_Counter(1)[of xs] by simp
  have old: "sorted_wrt (\<lambda>a b. first_seen (xs @ [x]) a < first_seen (xs @ [x]) b) ?K"
  proof (rule sorted_wrt_mono_rel[OF _ snoc])
    fix a b assume "a \<in> set ?K" "b \<in> set ?K" "first_seen xs a < first_seen xs b"
    then show "first_seen (xs @ [x]) a < first_seen (xs @ [x]) b"
      using K by (simp add: first_seen_append)
  qed
  show ?case
  proof (cases "x \<in> set xs")
    case True
    then have "map fst (Counter (xs @ [x])) = ?K"
      using K by (simp add: Counter_snoc keys_counter_incr)
    then show ?thesis using old by simp
  next
    case False
    then have "map fst (Counter (xs @ [x])) = ?K @ [x]"
      using K by (simp add: Counter_snoc keys_counter_incr)
    moreover have "\<forall>a\<in>set ?K. first_seen (xs @ [x]) a < first_seen (xs @ [x]) x"
      using False K by (simp add: first_seen_append first_seen_less)
    ultimately show ?thesis using old by (simp add: sorted_wrt_append)
  qed
qed

lemma set_get_factors: "set (get_factors M d) = {k. 2 \<le> k \<and> k \<le> M \<and> k dvd d}"
  by (auto simp: get_factors_def mod_eq_0_iff_dvd)

lemma votes_dvd: "votes ds k = int (length (filter (\<lambda>d. k dvd d) ds))"
  by (simp add: votes_def mod_eq_0_iff_dvd)

lemma count_list_distinct: "distinct xs \<Longrightarrow> count_list xs k = (if k \<in> set xs then 1 else 0)"
  by (induction xs) auto

lemma count_scan:
  assumes "set_enumeration so"
  shows "int (count_list (factor_scan so M ds) k) = (if 2 \<le> k \<and> k \<le> M then votes ds k else 0)"
proof (induction ds)
  case Nil
  show ?case by (simp add: factor_scan_def votes_def)
next
  case (Cons d ds)
  have e: "distinct (so (get_factors M d))" "set (so (get_factors M d)) = set (get_factors M d)"
    using assms by (simp_all add: set_enumeration_def)
  have "count_list (so (get_factors M d)) k = (if 2 \<le> k \<and> k \<le> M \<and> k dvd d then 1 else 0)"
    using e by (simp add: count_list_distinct set_get_factors)
  moreover have "factor_scan so M (d # ds) = so (get_factors M d) @ factor_scan so M ds"
    by (simp add: factor_scan_def)
  ultimately show ?case using Cons by (simp add: votes_dvd)
qed

lemma set_factor_scan:
  assumes "set_enumeration so"
  shows "set (factor_scan so M ds) = {k. 2 \<le> k \<and> k \<le> M \<and> (\<exists>d\<in>set ds. k dvd d)}"
proof -
  have e: "set (so (get_factors M d)) = {k. 2 \<le> k \<and> k \<le> M \<and> k dvd d}" for d
    using assms by (simp only: set_enumeration_def set_get_factors)
  have "set (factor_scan so M ds) = (\<Union>d\<in>set ds. set (so (get_factors M d)))"
    by (simp add: factor_scan_def)
  also have "\<dots> = (\<Union>d\<in>set ds. {k. 2 \<le> k \<and> k \<le> M \<and> k dvd d})"
    by (simp only: e)
  also have "\<dots> = {k. 2 \<le> k \<and> k \<le> M \<and> (\<exists>d\<in>set ds. k dvd d)}"
    by auto
  finally show ?thesis .
qed

lemma votes_nonneg: "0 \<le> votes ds k"
  by (simp add: votes_def)

lemma counter_entry: "distinct (map fst c) \<Longrightarrow> (k, v) \<in> set c \<Longrightarrow> cnt c k = v"
  by (simp add: cnt_def)

text \<open>The keys of the counter \<open>common_factors\<close>, in the order of their insertion.\<close>

definition factor_keys :: "(int list \<Rightarrow> int list) \<Rightarrow> int \<Rightarrow> int list \<Rightarrow> int list" where
  "factor_keys so M ds = map fst (Counter (factor_scan so M ds))"

lemma common_factors_items:
  assumes "set_enumeration so"
  shows "common_factors so M ds = map (\<lambda>k. (k, votes ds k)) (factor_keys so M ds)"
proof -
  let ?scan = "factor_scan so M ds"
  let ?items = "Counter ?scan"
  have "snd p = votes ds (fst p)" if "p \<in> set ?items" for p
  proof -
    obtain k v where p: "p = (k, v)" by (cases p)
    have "cnt ?items k = v" using that p keys_Counter(2)[of ?scan] by (simp add: counter_entry)
    then have v: "v = int (count_list ?scan k)" by (simp add: cnt_Counter)
    have "k \<in> set ?scan" using that p keys_Counter(1)[of ?scan] by force
    then have "2 \<le> k \<and> k \<le> M" using set_factor_scan[OF assms, of M ds] by simp
    then show ?thesis using v p count_scan[OF assms, of M ds k] by simp
  qed
  then have "map (\<lambda>p. (fst p, votes ds (fst p))) ?items = map (\<lambda>p. p) ?items"
    by (intro map_cong) (auto simp: prod_eq_iff)
  then show ?thesis
    by (simp add: common_factors_Counter factor_keys_def comp_def)
qed

lemma insort_key_map:
  "insort_key f (g x) (map g xs) = map g (insort_key (\<lambda>x. f (g x)) x xs)"
  by (induction xs) auto

lemma sort_key_map: "sort_key f (map g xs) = map g (sort_key (\<lambda>x. f (g x)) xs)"
  by (induction xs) (auto simp: insort_key_map)

text \<open>The ranking of the factors: the keys sorted stably by decreasing vote count.\<close>

definition ranking :: "(int list \<Rightarrow> int list) \<Rightarrow> int \<Rightarrow> int list \<Rightarrow> int list" where
  "ranking so M ds = sort_key (\<lambda>k. - votes ds k) (factor_keys so M ds)"

lemma kasiski_examination_ranking:
  assumes "set_enumeration so"
  shows "kasiski_examination so s M = take 3 (ranking so M (distances s))"
  by (simp add: kasiski_examination_def most_common_def common_factors_items[OF assms]
      sort_key_map take_map ranking_def comp_def)

subsection \<open>The candidates returned\<close>

lemma set_ranking: "set (ranking so M ds) = set (factor_scan so M ds)"
  using keys_Counter(1)[of "factor_scan so M ds"] by (simp add: ranking_def factor_keys_def)

lemma distinct_ranking: "distinct (ranking so M ds)"
  using keys_Counter(2)[of "factor_scan so M ds"] by (simp add: ranking_def factor_keys_def)

lemma ranking_sorted:
  assumes "i < j" "j < length (ranking so M ds)"
  shows "votes ds (ranking so M ds ! j) \<le> votes ds (ranking so M ds ! i)"
proof -
  let ?L = "ranking so M ds"
  have "sorted (map (\<lambda>k. - votes ds k) ?L)"
    unfolding ranking_def by (rule sorted_sort_key)
  then have "map (\<lambda>k. - votes ds k) ?L ! i \<le> map (\<lambda>k. - votes ds k) ?L ! j"
    using assms by (intro sorted_nth_mono) simp_all
  then show ?thesis using assms by simp
qed

lemma nth_split2:
  assumes "i < j" "j < length L"
  shows "\<exists>A B C. L = A @ L ! i # B @ L ! j # C"
proof -
  have 1: "L = take j L @ L ! j # drop (Suc j) L"
    using assms by (simp add: id_take_nth_drop)
  have "i < length (take j L)" using assms by simp
  then have "take j L = take i (take j L) @ take j L ! i # drop (Suc i) (take j L)"
    by (rule id_take_nth_drop)
  then have 2: "take j L = take i (take j L) @ L ! i # drop (Suc i) (take j L)"
    using assms by simp
  have "L = (take i (take j L) @ L ! i # drop (Suc i) (take j L)) @ L ! j # drop (Suc j) L"
    using 1 2 by metis
  then show ?thesis by (metis append.assoc append_Cons)
qed

lemma ranking_ties:
  assumes "i < j" "j < length (ranking so M ds)"
    and "votes ds (ranking so M ds ! i) = votes ds (ranking so M ds ! j)"
  shows "first_seen (factor_scan so M ds) (ranking so M ds ! i)
           < first_seen (factor_scan so M ds) (ranking so M ds ! j)"
proof -
  let ?L = "ranking so M ds"
  let ?K = "factor_keys so M ds"
  let ?R = "\<lambda>a b. first_seen (factor_scan so M ds) a < first_seen (factor_scan so M ds) b"
  let ?P = "\<lambda>k. - votes ds k = - votes ds (?L ! i)"
  have "sorted_wrt ?R ?K" unfolding factor_keys_def by (rule Counter_keys_order)
  then have "sorted_wrt ?R (filter ?P ?K)" by (rule sorted_wrt_filter)
  moreover have "filter ?P ?L = filter ?P ?K"
    unfolding ranking_def by (rule sort_key_stable)
  ultimately have srt: "sorted_wrt ?R (filter ?P ?L)" by simp
  from nth_split2[OF assms(1,2)] obtain A B C where L: "?L = A @ ?L ! i # B @ ?L ! j # C"
    by blast
  have "filter ?P ?L = filter ?P (A @ ?L ! i # B @ ?L ! j # C)"
    using L by simp
  also have "\<dots> = filter ?P A @ ?L ! i # filter ?P B @ ?L ! j # filter ?P C"
    using assms(3) by simp
  finally have "sorted_wrt ?R (filter ?P A @ ?L ! i # filter ?P B @ ?L ! j # filter ?P C)"
    using srt by simp
  then show ?thesis by (simp add: sorted_wrt_append)
qed


lemma votes_zero_iff: "(votes ds k = 0) = (\<not> (\<exists>d\<in>set ds. k dvd d))"
  by (auto simp: votes_dvd filter_empty_conv)

lemma take_index:
  assumes "k \<in> set L" "k \<notin> set (take n L)"
  shows "\<exists>b. n \<le> b \<and> b < length L \<and> L ! b = k"
proof -
  from assms(1) obtain b where b: "b < length L" "L ! b = k" by (auto simp: in_set_conv_nth)
  have "n \<le> b"
  proof (rule ccontr)
    assume "\<not> n \<le> b"
    then have "b < length (take n L)" "take n L ! b = k" using b by simp_all
    then have "k \<in> set (take n L)" by (metis nth_mem)
    then show False using assms(2) by simp
  qed
  then show ?thesis using b by blast
qed

lemma ranking_top:
  assumes so: "set_enumeration so"
    and k: "2 \<le> k" "k \<le> M" "k \<notin> set (take n (ranking so M ds))"
    and r: "r \<in> set (take n (ranking so M ds))"
  shows "votes ds k \<le> votes ds r"
proof (cases "k \<in> set (ranking so M ds)")
  case True
  let ?L = "ranking so M ds"
  from take_index[OF True k(3)] obtain b where b: "n \<le> b" "b < length ?L" "?L ! b = k"
    by blast
  from r obtain a where a: "a < length (take n ?L)" "take n ?L ! a = r"
    by (auto simp: in_set_conv_nth)
  then have "a < n" "?L ! a = r" by simp_all
  then show ?thesis using ranking_sorted[of a b so M ds] b by auto
next
  case False
  then have "\<not> (\<exists>d\<in>set ds. k dvd d)"
    using k(1,2) by (simp add: set_ranking set_factor_scan[OF so])
  then have "votes ds k = 0" using votes_zero_iff[of ds k] by simp
  then show ?thesis using votes_nonneg[of ds r] by simp
qed

lemma ranking_full:
  assumes so: "set_enumeration so"
    and k: "2 \<le> k" "k \<le> M" "0 < votes ds k" "k \<notin> set (take n (ranking so M ds))"
  shows "length (take n (ranking so M ds)) = n"
proof -
  have "votes ds k \<noteq> 0" using k(3) by simp
  then have "\<exists>d\<in>set ds. k dvd d" using votes_zero_iff[of ds k] by auto
  then have "k \<in> set (ranking so M ds)"
    using k(1,2) by (simp add: set_ranking set_factor_scan[OF so])
  from take_index[OF this k(4)] show ?thesis by auto
qed

lemma ranking_Nil: "ranking so M [] = []"
  by (simp add: ranking_def factor_keys_def factor_scan_def Counter_def)

lemma ranking_members:
  assumes "set_enumeration so" "k \<in> set (ranking so M (distances s))"
  shows "2 \<le> k \<and> k \<le> M \<and>
     (\<exists>i j. i < j \<and> j + 3 \<le> length s \<and> trigram s i = trigram s j \<and> (int j - int i) mod k = 0)"
proof -
  have "k \<in> {k. 2 \<le> k \<and> k \<le> M \<and> (\<exists>d\<in>set (distances s). k dvd d)}"
    using assms(2) by (simp only: set_ranking set_factor_scan[OF assms(1)])
  then have k: "2 \<le> k \<and> k \<le> M" and "\<exists>d\<in>set (distances s). k dvd d"
    by blast+
  then obtain d where d: "d \<in> set (distances s)" "k dvd d" by blast
  from d(1) have "\<exists>i j. i < j \<and> j + 3 \<le> length s \<and> trigram s i = trigram s j \<and> d = int j - int i"
    by (simp only: distances_set)
  then obtain i j where ij: "i < j" "j + 3 \<le> length s" "trigram s i = trigram s j"
      and dd: "d = int j - int i"
    by blast
  have "k dvd (int j - int i)" using d(2) unfolding dd .
  then have "(int j - int i) mod k = 0" by (rule dvd_imp_mod_0)
  with ij have "i < j \<and> j + 3 \<le> length s \<and> trigram s i = trigram s j \<and>
      (int j - int i) mod k = 0"
    by (intro conjI)
  then have "\<exists>i j. i < j \<and> j + 3 \<le> length s \<and> trigram s i = trigram s j \<and>
      (int j - int i) mod k = 0"
    by (intro exI)
  with k show ?thesis by (intro conjI) blast+
qed

lemma distances_Nil:
  assumes "\<forall>i j. i < j \<and> j + 3 \<le> length s \<longrightarrow> trigram s i \<noteq> trigram s j"
  shows "distances s = []"
proof -
  have "d \<notin> set (distances s)" for d
  proof
    assume "d \<in> set (distances s)"
    then have "\<exists>i j. i < j \<and> j + 3 \<le> length s \<and> trigram s i = trigram s j \<and> d = int j - int i"
      by (simp only: distances_set)
    then obtain i j where "i < j \<and> j + 3 \<le> length s" "trigram s i = trigram s j"
      by blast
    then show False using assms by blast
  qed
  then have "set (distances s) \<subseteq> {}" by (intro subsetI) simp
  then show ?thesis by (simp only: subset_empty set_empty)
qed

subsection \<open>The distances, from the text\<close>

lemma trigram_nth:
  assumes "i + 3 \<le> length s"
  shows "trigram s i = [s ! i, s ! (i + 1), s ! (i + 2)]"
proof (rule nth_equalityI)
  show "length (trigram s i) = length [s ! i, s ! (i + 1), s ! (i + 2)]"
    using assms by (simp add: trigram_def)
  fix t assume "t < length (trigram s i)"
  then have t: "t < 3" by (simp add: trigram_def)
  then have "t = 0 \<or> t = 1 \<or> t = 2" by arith
  then show "trigram s i ! t = [s ! i, s ! (i + 1), s ! (i + 2)] ! t"
    using assms by (auto simp: trigram_def)
qed

lemma trigram_same:
  assumes "i < length s - 2" "j < length s - 2"
  shows "(trigram s i = trigram s j) = same_trigram s i j"
proof -
  have "i + 3 \<le> length s" "j + 3 \<le> length s" using assms by arith+
  then show ?thesis by (simp add: trigram_nth same_trigram_def)
qed

lemma keys_seq_add:
  "map fst (seq_add d k i) = (if k \<in> fst ` set d then map fst d else map fst d @ [k])"
  by (induction d k i rule: seq_add.induct) auto

text \<open>The positions below \<open>m\<close> at which a trigram starts for the first time.\<close>

definition firsts :: "pystr \<Rightarrow> nat \<Rightarrow> nat list" where
  "firsts s m = filter (\<lambda>p. \<forall>q<p. trigram s q \<noteq> trigram s p) [0..<m]"

lemma scan_to_keys_set: "(k \<in> fst ` set (scan_to s m)) = (\<exists>q<m. trigram s q = k)"
proof -
  have "(k \<in> fst ` set (scan_to s m)) = (map_of (scan_to s m) k \<noteq> None)"
    by (simp add: map_of_eq_None_iff)
  also have "\<dots> = (occurrences s m k \<noteq> [])"
    using scan_to_inv[of s m] by simp
  also have "\<dots> = (\<exists>q<m. trigram s q = k)"
    by (auto simp: occurrences_def filter_empty_conv)
  finally show ?thesis .
qed

lemma scan_to_keys: "map fst (scan_to s m) = map (trigram s) (firsts s m)"
proof (induction m)
  case 0
  show ?case by (simp add: scan_to_def firsts_def)
next
  case (Suc m)
  have f: "firsts s (Suc m) =
      (if \<exists>q<m. trigram s q = trigram s m then firsts s m else firsts s m @ [m])"
    by (auto simp: firsts_def)
  show ?case
    using Suc by (simp add: scan_to_Suc keys_seq_add scan_to_keys_set f)
qed

lemma scan_to_entries:
  "scan_to s m = map (\<lambda>p. (trigram s p, occurrences s m (trigram s p))) (firsts s m)"
proof -
  have "snd e = occurrences s m (fst e)" if "e \<in> set (scan_to s m)" for e
  proof -
    obtain k v where e: "e = (k, v)" by (cases e)
    have d: "distinct (map fst (scan_to s m))" using scan_to_inv[of s m] by blast
    have "map_of (scan_to s m) k = Some v"
      using that e d by simp
    moreover have "map_of (scan_to s m) k =
        (if occurrences s m k = [] then None else Some (occurrences s m k))"
      using scan_to_inv[of s m] by blast
    ultimately have "v = occurrences s m k"
      by (simp split: if_splits)
    then show ?thesis by (simp add: e)
  qed
  then have "map (\<lambda>e. (fst e, occurrences s m (fst e))) (scan_to s m) = map (\<lambda>e. e) (scan_to s m)"
    by (intro map_cong) (auto simp: prod_eq_iff)
  then have "scan_to s m = map (\<lambda>k. (k, occurrences s m k)) (map fst (scan_to s m))"
    by (simp add: comp_def)
  then show ?thesis by (simp add: scan_to_keys comp_def)
qed

lemma position_distances_short: "length v \<le> 1 \<Longrightarrow> position_distances v = []"
proof (cases v)
  case Nil
  then show ?thesis by (simp add: position_distances_def)
next
  case (Cons a r)
  assume "length v \<le> 1"
  then have "r = []" using Cons by simp
  then show ?thesis using Cons by (simp add: position_distances_def)
qed

lemma concat_map_filter:
  "(\<forall>x\<in>set xs. \<not> P x \<longrightarrow> f x = []) \<Longrightarrow> concat (map f (filter P xs)) = concat (map f xs)"
  by (induction xs) auto

lemma drop_filter_upt:
  assumes "a < length (filter P [m..<n])"
  shows "drop (Suc a) (filter P [m..<n]) = filter P [Suc (filter P [m..<n] ! a)..<n]"
  using assms
proof (induction n)
  case 0
  then show ?case by simp
next
  case (Suc n)
  show ?case
  proof (cases "m \<le> n")
    case False
    then show ?thesis using Suc.prems by simp
  next
    case True
    let ?v = "filter P [m..<n]"
    have v': "filter P [m..<Suc n] = ?v @ (if P n then [n] else [])"
      using True by simp
    show ?thesis
    proof (cases "a < length ?v")
      case a: True
      have "?v ! a \<in> set ?v" using a by (rule nth_mem)
      then have lt: "?v ! a < n" by auto
      then have "[Suc (?v ! a)..<Suc n] = [Suc (?v ! a)..<n] @ [n]" by simp
      then have "filter P [Suc (?v ! a)..<Suc n] = filter P [Suc (?v ! a)..<n] @ (if P n then [n] else [])"
        by simp
      then show ?thesis
        using a Suc.IH[OF a] by (simp only: v' nth_append drop_append) simp
    next
      case b: False
      then have Pn: "P n" and al: "a = length ?v"
        using Suc.prems v' by (auto split: if_splits)
      have v'': "filter P [m..<Suc n] = ?v @ [n]" using v' Pn by simp
      have "filter P [m..<Suc n] ! a = n" unfolding v'' al by (rule nth_append_length)
      then show ?thesis unfolding v'' using al by simp
    qed
  qed
qed

lemma map_nth_drop: "map ((!) v) [a..<length v] = drop a v"
  by (rule nth_equalityI) simp_all

lemma position_distances_filter:
  "position_distances (filter P [0..<n]) =
     concat (map (\<lambda>i. map (\<lambda>j. int j - int i) (filter P [i + 1..<n])) (filter P [0..<n]))"
proof -
  let ?v = "filter P [0..<n]"
  have inner: "map (\<lambda>b. int (?v ! b) - int (?v ! a)) [a + 1..<length ?v] =
      map (\<lambda>j. int j - int (?v ! a)) (filter P [?v ! a + 1..<n])" if "a < length ?v" for a
  proof -
    have "map (\<lambda>b. int (?v ! b) - int (?v ! a)) [a + 1..<length ?v] =
        map (\<lambda>j. int j - int (?v ! a)) (map ((!) ?v) [a + 1..<length ?v])"
      by (simp add: comp_def)
    also have "\<dots> = map (\<lambda>j. int j - int (?v ! a)) (drop (Suc a) ?v)"
      by (simp only: map_nth_drop Suc_eq_plus1)
    also have "\<dots> = map (\<lambda>j. int j - int (?v ! a)) (filter P [?v ! a + 1..<n])"
      using drop_filter_upt[OF that] by simp
    finally show ?thesis .
  qed
  have "position_distances ?v =
      concat (map (\<lambda>a. map (\<lambda>b. int (?v ! b) - int (?v ! a)) [a + 1..<length ?v]) [0..<length ?v])"
    by (simp add: position_distances_def)
  also have "\<dots> = concat (map (\<lambda>a. (\<lambda>i. map (\<lambda>j. int j - int i) (filter P [i + 1..<n])) (?v ! a))
      [0..<length ?v])"
  proof -
    have "map (\<lambda>a. map (\<lambda>b. int (?v ! b) - int (?v ! a)) [a + 1..<length ?v]) [0..<length ?v] =
        map (\<lambda>a. (\<lambda>i. map (\<lambda>j. int j - int i) (filter P [i + 1..<n])) (?v ! a)) [0..<length ?v]"
    proof (rule map_cong[OF refl])
      fix a assume "a \<in> set [0..<length ?v]"
      then have "a < length ?v" by simp
      then show "map (\<lambda>b. int (?v ! b) - int (?v ! a)) [a + 1..<length ?v] =
          (\<lambda>i. map (\<lambda>j. int j - int i) (filter P [i + 1..<n])) (?v ! a)"
        by (rule inner)
    qed
    then show ?thesis by (rule arg_cong)
  qed
  also have "\<dots> = concat (map (\<lambda>i. map (\<lambda>j. int j - int i) (filter P [i + 1..<n]))
      (map ((!) ?v) [0..<length ?v]))"
    by (simp add: comp_def)
  also have "\<dots> = concat (map (\<lambda>i. map (\<lambda>j. int j - int i) (filter P [i + 1..<n])) ?v)"
    by (simp only: map_nth)
  finally show ?thesis .
qed


lemma distances_by_firsts:
  "distances s =
     concat (map (\<lambda>p. position_distances (occurrences s (length s - 2) (trigram s p)))
                 (firsts s (length s - 2)))"
proof -
  have seqs: "sequences s = scan_to s (length s - 2)"
    by (simp add: sequences_def scan_to_def)
  have "distances s = concat (map (\<lambda>(k, v). position_distances v) (sequences s))"
    unfolding distances_def repeated_seqs_def
    by (rule concat_map_filter) (auto simp: position_distances_short)
  then show ?thesis
    by (simp add: seqs scan_to_entries[of s "length s - 2"] comp_def)
qed

lemma distances_of_first:
  assumes "p < length s - 2"
  shows "position_distances (occurrences s (length s - 2) (trigram s p)) =
     concat (map (\<lambda>i. map (\<lambda>j. int j - int i)
                          (filter (\<lambda>j. same_trigram s i j) [i + 1..<length s - 2]))
                 (filter (\<lambda>i. same_trigram s p i) [0..<length s - 2]))"
proof -
  let ?n = "length s - 2"
  let ?P = "\<lambda>i. trigram s i = trigram s p"
  have mid: "filter ?P [0..<?n] = filter (\<lambda>i. same_trigram s p i) [0..<?n]"
  proof (rule filter_cong[OF refl])
    fix i assume "i \<in> set [0..<?n]"
    then have "i < ?n" by simp
    then have "(trigram s p = trigram s i) = same_trigram s p i"
      using assms by (intro trigram_same)
    then show "(trigram s i = trigram s p) = same_trigram s p i" by auto
  qed
  have inner: "map (\<lambda>j. int j - int i) (filter ?P [i + 1..<?n]) =
      map (\<lambda>j. int j - int i) (filter (\<lambda>j. same_trigram s i j) [i + 1..<?n])"
    if "i \<in> set (filter ?P [0..<?n])" for i
  proof -
    from that have i: "i < ?n" "trigram s i = trigram s p" by simp_all
    have "filter ?P [i + 1..<?n] = filter (\<lambda>j. same_trigram s i j) [i + 1..<?n]"
    proof (rule filter_cong[OF refl])
      fix j assume "j \<in> set [i + 1..<?n]"
      then have "j < ?n" by simp
      then have "(trigram s i = trigram s j) = same_trigram s i j"
        using i(1) by (intro trigram_same)
      then show "(trigram s j = trigram s p) = same_trigram s i j" using i(2) by auto
    qed
    then show ?thesis by simp
  qed
  have "position_distances (occurrences s ?n (trigram s p)) =
      concat (map (\<lambda>i. map (\<lambda>j. int j - int i) (filter ?P [i + 1..<?n])) (filter ?P [0..<?n]))"
    unfolding occurrences_def by (rule position_distances_filter)
  also have "\<dots> = concat (map (\<lambda>i. map (\<lambda>j. int j - int i)
      (filter (\<lambda>j. same_trigram s i j) [i + 1..<?n])) (filter ?P [0..<?n]))"
    using inner by (intro arg_cong[where f = concat] map_cong[OF refl])
  finally show ?thesis by (simp only: mid)
qed

lemma firsts_same:
  "firsts s (length s - 2) =
     filter (\<lambda>p. \<forall>q\<in>set [0..<p]. \<not> same_trigram s q p) [0..<length s - 2]"
  unfolding firsts_def
proof (rule filter_cong[OF refl])
  fix p assume "p \<in> set [0..<length s - 2]"
  then have p: "p < length s - 2" by simp
  have "(trigram s q = trigram s p) = same_trigram s q p" if "q < p" for q
    using that p by (intro trigram_same) simp_all
  then show "(\<forall>q<p. trigram s q \<noteq> trigram s p) = (\<forall>q\<in>set [0..<p]. \<not> same_trigram s q p)"
    by auto
qed

lemma distances_refine: "distances s = spec_distances s"
proof -
  let ?n = "length s - 2"
  have "map (\<lambda>p. position_distances (occurrences s ?n (trigram s p))) (firsts s ?n) =
      map (\<lambda>p. concat (map (\<lambda>i. map (\<lambda>j. int j - int i)
                          (filter (\<lambda>j. same_trigram s i j) [i + 1..<?n]))
                 (filter (\<lambda>i. same_trigram s p i) [0..<?n]))) (firsts s ?n)"
  proof (rule map_cong[OF refl])
    fix p assume "p \<in> set (firsts s ?n)"
    then have "p < ?n" by (simp add: firsts_def)
    then show "position_distances (occurrences s ?n (trigram s p)) =
        concat (map (\<lambda>i. map (\<lambda>j. int j - int i)
                          (filter (\<lambda>j. same_trigram s i j) [i + 1..<?n]))
                 (filter (\<lambda>i. same_trigram s p i) [0..<?n]))"
      by (rule distances_of_first)
  qed
  then show ?thesis
    by (simp only: distances_by_firsts spec_distances_def firsts_same)
qed

lemma factor_scan_refine: "factor_scan so M (spec_distances s) = spec_scan so M s"
  by (simp only: factor_scan_def spec_scan_def get_factors_def)


subsection \<open>The candidates, from the text\<close>

lemma ranking_order:
  assumes "a < b" "b < length (ranking so M ds)"
  shows "votes ds (ranking so M ds ! b) < votes ds (ranking so M ds ! a) \<or>
    (votes ds (ranking so M ds ! b) = votes ds (ranking so M ds ! a) \<and>
     first_seen (factor_scan so M ds) (ranking so M ds ! a)
       < first_seen (factor_scan so M ds) (ranking so M ds ! b))"
proof (cases "votes ds (ranking so M ds ! a) = votes ds (ranking so M ds ! b)")
  case True
  from ranking_ties[OF assms True] True show ?thesis by simp
next
  case False
  with ranking_sorted[OF assms] show ?thesis by simp
qed

lemma ranking_cut:
  assumes so: "set_enumeration so"
    and k: "2 \<le> k" "k \<le> M" "k \<notin> set (take n (ranking so M ds))"
    and r: "r \<in> set (take n (ranking so M ds))"
  shows "votes ds k < votes ds r \<or>
    (votes ds k = votes ds r \<and>
     first_seen (factor_scan so M ds) r < first_seen (factor_scan so M ds) k)"
proof (cases "k \<in> set (ranking so M ds)")
  case True
  let ?L = "ranking so M ds"
  from take_index[OF True k(3)] obtain b where b: "n \<le> b" "b < length ?L" "?L ! b = k"
    by blast
  from r obtain a where a: "a < length (take n ?L)" "take n ?L ! a = r"
    by (auto simp: in_set_conv_nth)
  then have a': "a < n" "?L ! a = r" by simp_all
  then have "a < b" using b(1) by simp
  from ranking_order[OF this b(2)] show ?thesis
    unfolding a'(2) b(3) .
next
  case False
  then have "\<not> (\<exists>d\<in>set ds. k dvd d)"
    using k(1,2) by (simp add: set_ranking set_factor_scan[OF so])
  then have zero: "votes ds k = 0" using votes_zero_iff[of ds k] by simp
  have "r \<in> set (ranking so M ds)" using r by (rule in_set_takeD)
  then have "\<exists>d\<in>set ds. r dvd d"
    by (simp add: set_ranking set_factor_scan[OF so])
  then have "votes ds r \<noteq> 0" using votes_zero_iff[of ds r] by simp
  then have "0 < votes ds r" using votes_nonneg[of ds r] by simp
  then show ?thesis using zero by simp
qed

lemma distance_pairs:
  "(d \<in> set (distances s)) =
   (\<exists>i j. i < j \<and> j + 3 \<le> length s \<and> same_trigram s i j \<and> d = int j - int i)"
proof -
  have "(trigram s i = trigram s j) = same_trigram s i j" if "i < j" "j + 3 \<le> length s" for i j
    using that by (intro trigram_same) arith+
  then have "(\<exists>i j. i < j \<and> j + 3 \<le> length s \<and> trigram s i = trigram s j \<and> d = int j - int i) =
      (\<exists>i j. i < j \<and> j + 3 \<le> length s \<and> same_trigram s i j \<and> d = int j - int i)"
    by blast
  then show ?thesis by (simp only: distances_set)
qed

lemma ranking_divides_pair:
  assumes "set_enumeration so" "k \<in> set (ranking so M (distances s))"
  shows "2 \<le> k \<and> k \<le> M \<and>
     (\<exists>i j. i < j \<and> j + 3 \<le> length s \<and> same_trigram s i j \<and> (int j - int i) mod k = 0)"
proof -
  have "k \<in> {k. 2 \<le> k \<and> k \<le> M \<and> (\<exists>d\<in>set (distances s). k dvd d)}"
    using assms(2) by (simp only: set_ranking set_factor_scan[OF assms(1)])
  then have k: "2 \<le> k \<and> k \<le> M" and "\<exists>d\<in>set (distances s). k dvd d"
    by blast+
  then obtain d where d: "d \<in> set (distances s)" "k dvd d" by blast
  from d(1) have "\<exists>i j. i < j \<and> j + 3 \<le> length s \<and> same_trigram s i j \<and> d = int j - int i"
    by (simp only: distance_pairs)
  then obtain i j where ij: "i < j" "j + 3 \<le> length s" "same_trigram s i j"
      and dd: "d = int j - int i"
    by blast
  have "k dvd (int j - int i)" using d(2) unfolding dd .
  then have "(int j - int i) mod k = 0" by (rule dvd_imp_mod_0)
  with ij have "i < j \<and> j + 3 \<le> length s \<and> same_trigram s i j \<and>
      (int j - int i) mod k = 0"
    by (intro conjI)
  then have "\<exists>i j. i < j \<and> j + 3 \<le> length s \<and> same_trigram s i j \<and>
      (int j - int i) mod k = 0"
    by (intro exI)
  with k show ?thesis by (intro conjI) blast+
qed

lemma no_repeat_no_distance:
  assumes "\<forall>i j. i < j \<and> j + 3 \<le> length s \<longrightarrow> \<not> same_trigram s i j"
  shows "distances s = []"
proof -
  have "d \<notin> set (distances s)" for d
  proof
    assume "d \<in> set (distances s)"
    then have "\<exists>i j. i < j \<and> j + 3 \<le> length s \<and> same_trigram s i j \<and> d = int j - int i"
      by (simp only: distance_pairs)
    then obtain i j where "i < j \<and> j + 3 \<le> length s" "same_trigram s i j"
      by blast
    then show False using assms by blast
  qed
  then have "set (distances s) \<subseteq> {}" by (intro subsetI) simp
  then show ?thesis by (simp only: subset_empty set_empty)
qed

text \<open>
  Claim C4. Whatever the order in which the implementation iterates a set,
  \<open>kasiski_examination\<close> returns at most 3 distinct divisors. Each lies in
  \<open>[2, max_key_length]\<close> and divides the distance between two occurrences of a repeated
  3-letter substring of the text. A vote is a distance of the text that the divisor evenly
  divides, counted once for every pair of occurrences. The divisors returned are in the order
  of decreasing vote count, and of two with equal counts the one met first in the factor scan
  comes first. A divisor of the range that is not returned is left out only when 3 are returned,
  and then it has fewer votes than each of them, or as many and was met later in the scan.
  Without a repeated 3-letter substring the list is empty.
\<close>

theorem kasiski_examination_candidates:
  assumes "set_enumeration set_order"
  shows
    "length (kasiski_examination set_order ciphertext max_key_length) \<le> 3 \<and>
     distinct (kasiski_examination set_order ciphertext max_key_length) \<and>
     (\<forall>k\<in>set (kasiski_examination set_order ciphertext max_key_length).
        2 \<le> k \<and> k \<le> max_key_length \<and>
        (\<exists>i j. i < j \<and> j + 3 \<le> length ciphertext \<and> same_trigram ciphertext i j \<and>
               (int j - int i) mod k = 0)) \<and>
     (\<forall>i j. i < j \<and> j < length (kasiski_examination set_order ciphertext max_key_length) \<longrightarrow>
        votes (spec_distances ciphertext)
            (kasiski_examination set_order ciphertext max_key_length ! j)
          < votes (spec_distances ciphertext)
              (kasiski_examination set_order ciphertext max_key_length ! i) \<or>
        (votes (spec_distances ciphertext)
            (kasiski_examination set_order ciphertext max_key_length ! j)
           = votes (spec_distances ciphertext)
               (kasiski_examination set_order ciphertext max_key_length ! i) \<and>
         first_seen (spec_scan set_order max_key_length ciphertext)
             (kasiski_examination set_order ciphertext max_key_length ! i)
           < first_seen (spec_scan set_order max_key_length ciphertext)
               (kasiski_examination set_order ciphertext max_key_length ! j))) \<and>
     (\<forall>k. 2 \<le> k \<and> k \<le> max_key_length \<and>
          k \<notin> set (kasiski_examination set_order ciphertext max_key_length) \<longrightarrow>
        (\<forall>r\<in>set (kasiski_examination set_order ciphertext max_key_length).
           votes (spec_distances ciphertext) k < votes (spec_distances ciphertext) r \<or>
           (votes (spec_distances ciphertext) k = votes (spec_distances ciphertext) r \<and>
            first_seen (spec_scan set_order max_key_length ciphertext) r
              < first_seen (spec_scan set_order max_key_length ciphertext) k)) \<and>
        (0 < votes (spec_distances ciphertext) k \<longrightarrow>
           length (kasiski_examination set_order ciphertext max_key_length) = 3)) \<and>
     ((\<forall>i j. i < j \<and> j + 3 \<le> length ciphertext \<longrightarrow> \<not> same_trigram ciphertext i j) \<longrightarrow>
        kasiski_examination set_order ciphertext max_key_length = [])"
proof -
  let ?ds = "distances ciphertext"
  let ?sc = "factor_scan set_order max_key_length ?ds"
  let ?L = "ranking set_order max_key_length ?ds"
  let ?res = "kasiski_examination set_order ciphertext max_key_length"
  have res: "?res = take 3 ?L" by (rule kasiski_examination_ranking[OF assms])
  have 1: "length ?res \<le> 3" by (simp add: res)
  have 2: "distinct ?res" by (simp add: res distinct_ranking)
  have 3: "\<forall>k\<in>set ?res. 2 \<le> k \<and> k \<le> max_key_length \<and>
        (\<exists>i j. i < j \<and> j + 3 \<le> length ciphertext \<and> same_trigram ciphertext i j \<and>
               (int j - int i) mod k = 0)"
  proof
    fix k assume "k \<in> set ?res"
    then have "k \<in> set ?L" unfolding res by (rule in_set_takeD)
    then show "2 \<le> k \<and> k \<le> max_key_length \<and>
        (\<exists>i j. i < j \<and> j + 3 \<le> length ciphertext \<and> same_trigram ciphertext i j \<and>
               (int j - int i) mod k = 0)"
      by (rule ranking_divides_pair[OF assms])
  qed
  have 4: "\<forall>i j. i < j \<and> j < length ?res \<longrightarrow>
        votes ?ds (?res ! j) < votes ?ds (?res ! i) \<or>
        (votes ?ds (?res ! j) = votes ?ds (?res ! i) \<and>
         first_seen ?sc (?res ! i) < first_seen ?sc (?res ! j))"
  proof (intro allI impI)
    fix i j assume ij: "i < j \<and> j < length ?res"
    then have j: "j < length ?L" "j < 3" by (simp_all add: res)
    then have nth: "?res ! i = ?L ! i" "?res ! j = ?L ! j" using ij by (simp_all add: res)
    have "i < j" using ij by simp
    from ranking_order[OF this j(1)]
    show "votes ?ds (?res ! j) < votes ?ds (?res ! i) \<or>
        (votes ?ds (?res ! j) = votes ?ds (?res ! i) \<and>
         first_seen ?sc (?res ! i) < first_seen ?sc (?res ! j))"
      unfolding nth .
  qed
  have 5: "\<forall>k. 2 \<le> k \<and> k \<le> max_key_length \<and> k \<notin> set ?res \<longrightarrow>
        (\<forall>r\<in>set ?res. votes ?ds k < votes ?ds r \<or>
           (votes ?ds k = votes ?ds r \<and> first_seen ?sc r < first_seen ?sc k)) \<and>
        (0 < votes ?ds k \<longrightarrow> length ?res = 3)"
  proof (intro allI impI conjI ballI)
    fix k r assume k: "2 \<le> k \<and> k \<le> max_key_length \<and> k \<notin> set ?res" and r: "r \<in> set ?res"
    show "votes ?ds k < votes ?ds r \<or>
           (votes ?ds k = votes ?ds r \<and> first_seen ?sc r < first_seen ?sc k)"
      using k r unfolding res by (intro ranking_cut[OF assms]) simp_all
  next
    fix k assume k: "2 \<le> k \<and> k \<le> max_key_length \<and> k \<notin> set ?res" and v: "0 < votes ?ds k"
    show "length ?res = 3"
      using k v unfolding res by (intro ranking_full[OF assms, of k]) simp_all
  qed
  have 6: "(\<forall>i j. i < j \<and> j + 3 \<le> length ciphertext \<longrightarrow> \<not> same_trigram ciphertext i j) \<longrightarrow>
      ?res = []"
  proof
    assume "\<forall>i j. i < j \<and> j + 3 \<le> length ciphertext \<longrightarrow> \<not> same_trigram ciphertext i j"
    then have "?ds = []" by (rule no_repeat_no_distance)
    then show "?res = []" by (simp add: res ranking_Nil)
  qed
  from 1 2 3 4 5 6 show ?thesis
    unfolding distances_refine factor_scan_refine by (intro conjI)
qed

subsection \<open>A run of the Kasiski examination\<close>

text \<open>
  The text \<open>abcdefghijklabc\<close>: the only repeated 3-letter substring is \<open>abc\<close>, at the offsets 0
  and 12. The one distance is 12, its factors up to 15 are 2, 3, 4, 6 and 12 with one vote each,
  and CPython iterates this set in increasing order.
\<close>

lemma ascending_enumeration: "set_enumeration ascending"
  by (simp add: set_enumeration_def ascending_def)

lemma sample_run:
  "distances (str ''abcdefghijklabc'') = [12]"
  "kasiski_examination ascending (str ''abcdefghijklabc'') 15 = [2, 3, 4]"
  by code_simp+

lemma sample_spec:
  "spec_distances (str ''abcdefghijklabc'') = [12]"
  by code_simp

theorem kasiski_examination_candidates_witness:
  "kasiski_examination ascending (str ''abcdefghijklabc'') 15 = [2, 3, 4] \<and>
   spec_distances (str ''abcdefghijklabc'') = [12] \<and>
   (votes (spec_distances (str ''abcdefghijklabc'')) 3
      = votes (spec_distances (str ''abcdefghijklabc'')) 2 \<and>
    first_seen (spec_scan ascending 15 (str ''abcdefghijklabc'')) 2
      < first_seen (spec_scan ascending 15 (str ''abcdefghijklabc'')) 3) \<and>
   (votes (spec_distances (str ''abcdefghijklabc'')) 12
      = votes (spec_distances (str ''abcdefghijklabc'')) 4 \<and>
    first_seen (spec_scan ascending 15 (str ''abcdefghijklabc'')) 4
      < first_seen (spec_scan ascending 15 (str ''abcdefghijklabc'')) 12)"
proof -
  let ?t = "str ''abcdefghijklabc''"
  let ?res = "kasiski_examination ascending ?t 15"
  let ?D = "spec_distances ?t"
  let ?S = "spec_scan ascending 15 ?t"
  note shape = kasiski_examination_candidates[OF ascending_enumeration, of ?t 15]
  have res: "?res = [2, 3, 4]" by (rule sample_run(2))
  have v: "votes ?D 2 = 1" "votes ?D 3 = 1" "votes ?D 4 = 1" "votes ?D 12 = 1"
    by (simp_all add: sample_spec votes_def)
  have ord: "\<forall>i j. i < j \<and> j < length ?res \<longrightarrow>
        votes ?D (?res ! j) < votes ?D (?res ! i) \<or>
        (votes ?D (?res ! j) = votes ?D (?res ! i) \<and>
         first_seen ?S (?res ! i) < first_seen ?S (?res ! j))"
    using shape by blast
  have cut: "\<forall>k. 2 \<le> k \<and> k \<le> 15 \<and> k \<notin> set ?res \<longrightarrow>
        (\<forall>r\<in>set ?res. votes ?D k < votes ?D r \<or>
           (votes ?D k = votes ?D r \<and> first_seen ?S r < first_seen ?S k)) \<and>
        (0 < votes ?D k \<longrightarrow> length ?res = 3)"
    using shape by blast
  have "(0::nat) < 1 \<and> 1 < length ?res" by (simp add: res)
  with ord have "votes ?D (?res ! 1) < votes ?D (?res ! 0) \<or>
        (votes ?D (?res ! 1) = votes ?D (?res ! 0) \<and>
         first_seen ?S (?res ! 0) < first_seen ?S (?res ! 1))"
    by blast
  then have a: "votes ?D 3 = votes ?D 2 \<and> first_seen ?S 2 < first_seen ?S 3"
    using v by (simp add: res)
  have "(2::int) \<le> 12 \<and> (12::int) \<le> 15 \<and> 12 \<notin> set ?res" by (simp add: res)
  with cut have "\<forall>r\<in>set ?res. votes ?D 12 < votes ?D r \<or>
           (votes ?D 12 = votes ?D r \<and> first_seen ?S r < first_seen ?S 12)"
    by blast
  then have b: "votes ?D 12 = votes ?D 4 \<and> first_seen ?S 4 < first_seen ?S 12"
    using v by (simp add: res)
  from res sample_spec a b show ?thesis by (intro conjI) simp_all
qed

subsection \<open>A known period\<close>

lemma votes_le_length: "votes ds k \<le> int (length ds)"
  by (simp add: votes_def)

lemma votes_all: "(votes ds k = int (length ds)) = (\<forall>d\<in>set ds. k dvd d)"
proof -
  have "(length (filter (\<lambda>d. k dvd d) ds) = length ds) = (\<forall>d\<in>set ds. k dvd d)"
    by (induction ds) (auto simp: le_imp_less_Suc[OF length_filter_le] less_not_refl2 dest: sym)
  then show ?thesis by (simp add: votes_dvd)
qed

lemma period_divides_distances:
  assumes "\<forall>i j. i < j \<and> j + 3 \<le> length s \<and> trigram s i = trigram s j \<longrightarrow>
             P dvd int i \<and> P dvd int j"
  shows "\<forall>d\<in>set (distances s). P dvd d"
proof
  fix d assume "d \<in> set (distances s)"
  then have "\<exists>i j. i < j \<and> j + 3 \<le> length s \<and> trigram s i = trigram s j \<and> d = int j - int i"
    by (simp only: distances_set)
  then obtain i j where ij: "i < j \<and> j + 3 \<le> length s \<and> trigram s i = trigram s j"
    and d: "d = int j - int i" by blast
  from assms ij have "P dvd int i \<and> P dvd int j" by blast
  then show "P dvd d" unfolding d by (simp add: dvd_diff)
qed

lemma repeat_gives_distance:
  assumes "i < j" "j + 3 \<le> length s" "trigram s i = trigram s j"
  shows "int j - int i \<in> set (distances s)"
proof -
  have "\<exists>i' j'. i' < j' \<and> j' + 3 \<le> length s \<and> trigram s i' = trigram s j' \<and>
      int j - int i = int j' - int i'"
    using assms by blast
  then show ?thesis by (simp only: distances_set)
qed

text \<open>
  Claim C5, as the code has it. Let every occurrence of a repeated 3-letter substring start at a
  multiple of \<open>P\<close>, with \<open>2 \<le> P \<le> max_key_length\<close>, and let some 3-letter substring occur
  twice. Then every distance votes for \<open>P\<close>, which is the highest count there is, and \<open>P\<close> is
  among the candidates returned unless the three candidates returned divide every distance too
  and were met before \<open>P\<close> in the factor scan.
\<close>

theorem kasiski_examination_period:
  assumes enum: "set_enumeration set_order"
    and range: "2 \<le> P" "P \<le> max_key_length"
    and at_period: "\<forall>i j. i < j \<and> j + 3 \<le> length ciphertext \<and>
             trigram ciphertext i = trigram ciphertext j \<longrightarrow> P dvd int i \<and> P dvd int j"
    and twice: "\<exists>i j. i < j \<and> j + 3 \<le> length ciphertext \<and>
             trigram ciphertext i = trigram ciphertext j"
  shows "votes (distances ciphertext) P = int (length (distances ciphertext)) \<and>
    (P \<in> set (kasiski_examination set_order ciphertext max_key_length) \<or>
     (length (kasiski_examination set_order ciphertext max_key_length) = 3 \<and>
      (\<forall>r\<in>set (kasiski_examination set_order ciphertext max_key_length).
         (\<forall>d\<in>set (distances ciphertext). r dvd d) \<and>
         first_seen (factor_scan set_order max_key_length (distances ciphertext)) r
           < first_seen (factor_scan set_order max_key_length (distances ciphertext)) P)))"
proof -
  let ?ds = "distances ciphertext"
  let ?L = "ranking set_order max_key_length ?ds"
  let ?res = "kasiski_examination set_order ciphertext max_key_length"
  let ?scan = "factor_scan set_order max_key_length ?ds"
  have res: "?res = take 3 ?L" by (rule kasiski_examination_ranking[OF enum])
  have all: "\<forall>d\<in>set ?ds. P dvd d" by (rule period_divides_distances[OF at_period])
  then have vP: "votes ?ds P = int (length ?ds)" by (simp only: votes_all)
  from twice obtain i j where "i < j" "j + 3 \<le> length ciphertext"
      "trigram ciphertext i = trigram ciphertext j" by blast
  then have "int j - int i \<in> set ?ds" by (rule repeat_gives_distance)
  then have ne: "?ds \<noteq> []" by auto
  then have pos: "0 < votes ?ds P" using vP by simp
  have tail: "length ?res = 3 \<and>
      (\<forall>r\<in>set ?res. (\<forall>d\<in>set ?ds. r dvd d) \<and> first_seen ?scan r < first_seen ?scan P)"
    if out: "P \<notin> set ?res"
  proof
    have out': "P \<notin> set (take 3 ?L)" using out unfolding res .
    show len: "length ?res = 3"
      unfolding res by (rule ranking_full[OF enum range pos out'])
    have "\<exists>d\<in>set ?ds. P dvd d" using all ne by (cases ?ds) auto
    then have "P \<in> set ?L"
      using range by (simp add: set_ranking set_factor_scan[OF enum])
    from take_index[OF this out'] obtain b where b: "3 \<le> b" "b < length ?L" "?L ! b = P"
      by blast
    show "\<forall>r\<in>set ?res. (\<forall>d\<in>set ?ds. r dvd d) \<and> first_seen ?scan r < first_seen ?scan P"
    proof
      fix r assume r: "r \<in> set ?res"
      then have r': "r \<in> set (take 3 ?L)" unfolding res .
      have "votes ?ds P \<le> votes ?ds r"
        by (rule ranking_top[OF enum range out' r'])
      then have vr: "votes ?ds r = int (length ?ds)"
        using vP votes_le_length[of ?ds r] by simp
      then have dv: "\<forall>d\<in>set ?ds. r dvd d" by (simp only: votes_all)
      from r' obtain a where a: "a < length (take 3 ?L)" "take 3 ?L ! a = r"
        by (auto simp: in_set_conv_nth)
      then have a3: "a < 3" "?L ! a = r" by simp_all
      have "first_seen ?scan (?L ! a) < first_seen ?scan (?L ! b)"
        using a3 b vr vP by (intro ranking_ties) simp_all
      then show "(\<forall>d\<in>set ?ds. r dvd d) \<and> first_seen ?scan r < first_seen ?scan P"
        using dv a3(2) b(3) by simp
    qed
  qed
  show ?thesis using vP tail by blast
qed


lemma period_run:
  "distances (str ''abcdefabc'') = [6]"
  "kasiski_examination ascending (str ''abcdefabc'') 15 = [2, 3, 6]"
  "trigram (str ''abcdefabc'') 0 = trigram (str ''abcdefabc'') 6"
  "length (str ''abcdefabc'') = 9"
  by code_simp+

theorem kasiski_examination_period_witness:
  "votes (distances (str ''abcdefabc'')) 6 = int (length (distances (str ''abcdefabc''))) \<and>
   kasiski_examination ascending (str ''abcdefabc'') 15 = [2, 3, 6]"
proof -
  let ?t = "str ''abcdefabc''"
  have at_period: "\<forall>i j. i < j \<and> j + 3 \<le> length ?t \<and> trigram ?t i = trigram ?t j \<longrightarrow>
      6 dvd int i \<and> 6 dvd int j"
  proof (intro allI impI)
    fix i j assume h: "i < j \<and> j + 3 \<le> length ?t \<and> trigram ?t i = trigram ?t j"
    then have "int j - int i \<in> set (distances ?t)" by (intro repeat_gives_distance) simp_all
    then have "int j - int i = 6" by (simp only: period_run(1)) simp
    moreover have "j + 3 \<le> 9" using h by (simp only: period_run(4))
    ultimately have "i = 0 \<and> j = 6" by arith
    then show "6 dvd int i \<and> 6 dvd int j" by simp
  qed
  have twice: "\<exists>i j. i < j \<and> j + 3 \<le> length ?t \<and> trigram ?t i = trigram ?t j"
  proof (intro exI conjI)
    show "(0::nat) < 6" by simp
    show "6 + 3 \<le> length ?t" by (simp only: period_run(4))
    show "trigram ?t 0 = trigram ?t 6" by (rule period_run(3))
  qed
  have "(2::int) \<le> 6" "(6::int) \<le> 15" by simp_all
  from kasiski_examination_period[OF ascending_enumeration this at_period twice]
  have "votes (distances ?t) 6 = int (length (distances ?t))" by blast
  then show ?thesis using period_run(2) by (intro conjI)
qed

text \<open>
  Claim C5 as stated fails for the period \<open>P = 12\<close>: in \<open>abcdefghijklabc\<close> the trigram \<open>abc\<close>
  starts at 0 and at 12 and no other trigram is repeated, the factors 2, 3, 4, 6 and 12 of the
  distance 12 have one vote each, and the three met first, 2, 3 and 4, are returned.
\<close>

theorem kasiski_examination_period_counterexample:
  "trigram (str ''abcdefghijklabc'') 0 = trigram (str ''abcdefghijklabc'') 12 \<and>
   distances (str ''abcdefghijklabc'') = [12] \<and>
   kasiski_examination ascending (str ''abcdefghijklabc'') 15 = [2, 3, 4] \<and>
   12 \<notin> set (kasiski_examination ascending (str ''abcdefghijklabc'') 15)"
proof -
  have "trigram (str ''abcdefghijklabc'') 0 = trigram (str ''abcdefghijklabc'') 12"
    by code_simp
  then show ?thesis by (simp add: sample_run)
qed

section \<open>Properties of \<open>crack_vigenere\<close>\<close>

subsection \<open>One attempt always succeeds\<close>

lemma lower_cp_nonempty: "lower_cp c \<noteq> []"
  by (simp add: lower_cp_def)

lemma lower_nonempty: "key \<noteq> [] \<Longrightarrow> lower key \<noteq> []"
  by (cases key) (simp_all add: lower_def lower_cp_nonempty)

lemma upper_letter_ord: "isupper_cp c \<Longrightarrow> \<exists>x. py_ord (lower_cp c) = Inr x"
  by (auto simp: isupper_cp_def lower_cp_def)

lemma decrypt_loop_total: "key \<noteq> [] \<Longrightarrow> \<exists>out. decrypt_loop key n s = Inr out"
proof (induction s arbitrary: n)
  case Nil
  show ?case by simp
next
  case (Cons c cs)
  from Cons.IH[OF Cons.prems, of n] obtain r0 where r0: "decrypt_loop key n cs = Inr r0" by blast
  from Cons.IH[OF Cons.prems, of "n + 1"] obtain r1 where r1: "decrypt_loop key (n + 1) cs = Inr r1"
    by blast
  show ?case
  proof (cases "isupper_cp c")
    case True
    from upper_letter_ord[OF this] obtain x where "py_ord (lower_cp c) = Inr x" by blast
    then show ?thesis using True r0 r1 Cons.prems by (simp add: cycle_next_def Let_def)
  next
    case False
    then show ?thesis using r0 r1 Cons.prems by (simp add: cycle_next_def Let_def)
  qed
qed

lemma decrypt_vigenere_total: "key \<noteq> [] \<Longrightarrow> \<exists>out. decrypt_vigenere s key = Inr out"
  unfolding decrypt_vigenere_def by (rule decrypt_loop_total) (rule lower_nonempty)

lemma collect_total:
  "(\<forall>x\<in>set xs. \<exists>y. g x = Inr y) \<Longrightarrow>
   \<exists>ys. collect (map g xs) = Inr ys \<and> length ys = length xs"
proof (induction xs)
  case Nil
  show ?case by simp
next
  case (Cons x xs)
  from Cons.prems obtain y where y: "g x = Inr y" by auto
  from Cons.IH Cons.prems obtain ys where "collect (map g xs) = Inr ys" "length ys = length xs"
    by auto
  then show ?case using y by simp
qed

lemma make_key_total: "\<exists>key. make_key cosets = Inr key \<and> length key = length cosets"
  unfolding make_key_def
proof (rule collect_total, intro ballI)
  fix coset
  from frequency_analysis_spec[of coset] obtain r where "frequency_analysis coset = Inr r" by blast
  then show "\<exists>y. (case frequency_analysis coset of Inl e \<Rightarrow> Inl e
                     | Inr shift \<Rightarrow> Inr (nat (shift + 97))) = Inr y"
    by simp
qed

lemma try_key_length_total:
  assumes "1 \<le> k"
  shows "\<exists>key decrypted. try_key_length ciphertext cleaned k = Inr (key, decrypted) \<and>
           length key = nat k \<and> decrypt_vigenere ciphertext key = Inr decrypted"
proof -
  let ?cosets = "map (coset_of cleaned (nat k)) [0..<nat k]"
  have c: "get_cosets cleaned k = Inr ?cosets" by (rule get_cosets_positive[OF assms])
  from make_key_total[of ?cosets] obtain key where
    key: "make_key ?cosets = Inr key" "length key = nat k" by auto
  then have "key \<noteq> []" using assms by auto
  from decrypt_vigenere_total[OF this, of ciphertext] obtain out where
    out: "decrypt_vigenere ciphertext key = Inr out" by blast
  show ?thesis using c key out by (simp add: try_key_length_def)
qed

lemma attempts_for_Nil: "attempts_for ciphertext [] = []"
  by (simp add: attempts_for_def)

lemma attempts_for_Cons:
  "try_key_length ciphertext (clean_text ciphertext) k = Inr (key, decrypted) \<Longrightarrow>
   attempts_for ciphertext (k # ks) = (k, key, decrypted) # attempts_for ciphertext ks"
  by (simp add: attempts_for_def)

lemma attempts_for_lengths:
  "\<forall>k\<in>set ks. 1 \<le> k \<Longrightarrow> map fst (attempts_for ciphertext ks) = ks"
proof (induction ks)
  case Nil
  show ?case by (simp add: attempts_for_Nil)
next
  case (Cons k ks)
  then have "1 \<le> k" by simp
  from try_key_length_total[OF this, of ciphertext "clean_text ciphertext"]
  obtain key decrypted where "try_key_length ciphertext (clean_text ciphertext) k = Inr (key, decrypted)"
    by blast
  then show ?case using Cons by (simp add: attempts_for_Cons)
qed

lemma attempts_for_entries:
  assumes "(k, key, decrypted) \<in> set (attempts_for ciphertext ks)"
  shows "k \<in> set ks \<and> try_key_length ciphertext (clean_text ciphertext) k = Inr (key, decrypted)"
  using assms by (auto simp: attempts_for_def split: sum.splits)

subsection \<open>The two loops as one\<close>

lemma manual_loop_filter:
  "manual_loop ask ciphertext cleaned possible ks log =
     ranked_loop ask ciphertext cleaned (filter (\<lambda>k. k \<notin> set possible) ks) log"
  by (induction ks arbitrary: log) (auto split: sum.splits option.splits prod.splits)

lemma ranked_loop_append:
  "ranked_loop ask ciphertext cleaned (ks1 @ ks2) log =
     (case ranked_loop ask ciphertext cleaned ks1 log of
        Inl e \<Rightarrow> Inl e
      | Inr (log', Some found) \<Rightarrow> Inr (log', Some found)
      | Inr (log', None) \<Rightarrow> ranked_loop ask ciphertext cleaned ks2 log')"
  by (induction ks1 arbitrary: log) (auto split: sum.splits option.splits prod.splits)

lemma two_loops:
  "(case ranked_loop ask ciphertext cleaned ranked [] of
      Inl e \<Rightarrow> Inl e
    | Inr (log, Some (key, decrypted)) \<Rightarrow> Inr (log, Some key, Some decrypted)
    | Inr (log, None) \<Rightarrow>
       (case manual_loop ask ciphertext cleaned ranked manual log of
          Inl e \<Rightarrow> Inl e
        | Inr (log', Some (key, decrypted)) \<Rightarrow> Inr (log', Some key, Some decrypted)
        | Inr (log', None) \<Rightarrow> Inr (log', None, None))) =
   (case ranked_loop ask ciphertext cleaned (ranked @ filter (\<lambda>k. k \<notin> set ranked) manual) [] of
      Inl e \<Rightarrow> Inl e
    | Inr (log, Some (key, decrypted)) \<Rightarrow> Inr (log, Some key, Some decrypted)
    | Inr (log, None) \<Rightarrow> Inr (log, None, None))"
  by (simp add: ranked_loop_append manual_loop_filter
      split: sum.splits option.splits prod.splits)

lemma crack_vigenere_loop:
  "crack_vigenere so ask ciphertext =
     (case ranked_loop ask ciphertext (clean_text ciphertext)
             (lengths_to_try (kasiski_examination so (clean_text ciphertext) 15)) [] of
        Inl e \<Rightarrow> Inl e
      | Inr (log, Some (key, decrypted)) \<Rightarrow> Inr (log, Some key, Some decrypted)
      | Inr (log, None) \<Rightarrow> Inr (log, None, None))"
  unfolding crack_vigenere_def Let_def lengths_to_try_def by (rule two_loops)

lemma ranked_loop_rejected:
  assumes "\<forall>k\<in>set ks. 1 \<le> k"
    and "\<forall>m<length ks. \<exists>r. ask (log @ take (Suc m) (attempts_for ciphertext ks)) = Some r \<and> \<not> accepts r"
  shows "ranked_loop ask ciphertext (clean_text ciphertext) ks log =
           Inr (log @ attempts_for ciphertext ks, None)"
  using assms
proof (induction ks arbitrary: log)
  case Nil
  show ?case by (simp add: attempts_for_Nil)
next
  case (Cons k ks)
  then have "1 \<le> k" by simp
  from try_key_length_total[OF this, of ciphertext "clean_text ciphertext"]
  obtain key decrypted where
    t: "try_key_length ciphertext (clean_text ciphertext) k = Inr (key, decrypted)" by blast
  let ?a = "(k, key, decrypted)"
  have A: "attempts_for ciphertext (k # ks) = ?a # attempts_for ciphertext ks"
    by (rule attempts_for_Cons[OF t])
  from Cons.prems(2) have "\<exists>r. ask (log @ take (Suc 0) (attempts_for ciphertext (k # ks))) = Some r \<and> \<not> accepts r"
    by (simp del: take_Suc_Cons)
  then obtain r where r: "ask (log @ [?a]) = Some r" "\<not> accepts r" by (auto simp: A)
  have "\<forall>m<length ks. \<exists>r. ask ((log @ [?a]) @ take (Suc m) (attempts_for ciphertext ks)) = Some r \<and> \<not> accepts r"
  proof (intro allI impI)
    fix m assume "m < length ks"
    then have "Suc m < length (k # ks)" by simp
    with Cons.prems(2) have "\<exists>r. ask (log @ take (Suc (Suc m)) (attempts_for ciphertext (k # ks))) = Some r \<and> \<not> accepts r"
      by blast
    then show "\<exists>r. ask ((log @ [?a]) @ take (Suc m) (attempts_for ciphertext ks)) = Some r \<and> \<not> accepts r"
      by (simp add: A)
  qed
  with Cons.IH[of "log @ [?a]"] Cons.prems(1)
  have "ranked_loop ask ciphertext (clean_text ciphertext) ks (log @ [?a]) =
      Inr ((log @ [?a]) @ attempts_for ciphertext ks, None)"
    by simp
  then show ?case using t r by (simp add: A)
qed

lemma ranked_loop_accepted:
  assumes "\<forall>k\<in>set ks. 1 \<le> k"
    and "n < length ks"
    and "\<forall>m<n. \<exists>r. ask (log @ take (Suc m) (attempts_for ciphertext ks)) = Some r \<and> \<not> accepts r"
    and "ask (log @ take (Suc n) (attempts_for ciphertext ks)) = Some r" "accepts r"
    and "attempts_for ciphertext ks ! n = (k, key, decrypted)"
  shows "ranked_loop ask ciphertext (clean_text ciphertext) ks log =
           Inr (log @ take (Suc n) (attempts_for ciphertext ks), Some (key, decrypted))"
  using assms
proof (induction ks arbitrary: log n)
  case Nil
  then show ?case by simp
next
  case (Cons k0 ks)
  then have "1 \<le> k0" by simp
  from try_key_length_total[OF this, of ciphertext "clean_text ciphertext"]
  obtain key0 dec0 where
    t: "try_key_length ciphertext (clean_text ciphertext) k0 = Inr (key0, dec0)" by blast
  let ?a = "(k0, key0, dec0)"
  have A: "attempts_for ciphertext (k0 # ks) = ?a # attempts_for ciphertext ks"
    by (rule attempts_for_Cons[OF t])
  show ?case
  proof (cases n)
    case 0
    have tk: "take (Suc 0) (attempts_for ciphertext (k0 # ks)) = [?a]" by (simp add: A)
    have "ask (log @ [?a]) = Some r" "?a = (k, key, decrypted)"
      using Cons.prems(4,6) 0 by (simp_all add: A)
    then show ?thesis unfolding 0 tk using t Cons.prems(5) by simp
  next
    case (Suc n')
    have "\<exists>r. ask (log @ take (Suc 0) (attempts_for ciphertext (k0 # ks))) = Some r \<and> \<not> accepts r"
      using Cons.prems(3) Suc by blast
    then obtain r0 where r0: "ask (log @ [?a]) = Some r0" "\<not> accepts r0" by (auto simp: A)
    have rej: "\<forall>m<n'. \<exists>r. ask ((log @ [?a]) @ take (Suc m) (attempts_for ciphertext ks)) = Some r \<and> \<not> accepts r"
    proof (intro allI impI)
      fix m assume "m < n'"
      then have "Suc m < n" using Suc by simp
      with Cons.prems(3) have "\<exists>r. ask (log @ take (Suc (Suc m)) (attempts_for ciphertext (k0 # ks))) = Some r \<and> \<not> accepts r"
        by blast
      then show "\<exists>r. ask ((log @ [?a]) @ take (Suc m) (attempts_for ciphertext ks)) = Some r \<and> \<not> accepts r"
        by (simp add: A)
    qed
    have acc: "ask ((log @ [?a]) @ take (Suc n') (attempts_for ciphertext ks)) = Some r"
      using Cons.prems(4) Suc by (simp add: A)
    have nth: "attempts_for ciphertext ks ! n' = (k, key, decrypted)"
      using Cons.prems(6) Suc by (simp add: A)
    have "ranked_loop ask ciphertext (clean_text ciphertext) ks (log @ [?a]) =
        Inr ((log @ [?a]) @ take (Suc n') (attempts_for ciphertext ks), Some (key, decrypted))"
      using Cons.prems(1,2) Suc
      by (intro Cons.IH[OF _ _ rej acc Cons.prems(5) nth]) simp_all
    then show ?thesis using t r0 Suc by (simp add: A)
  qed
qed

lemma collect_nth:
  "collect (map g xs) = Inr ys \<Longrightarrow>
   length ys = length xs \<and> (\<forall>i<length xs. g (xs ! i) = Inr (ys ! i))"
proof (induction xs arbitrary: ys)
  case Nil
  then show ?case by simp
next
  case (Cons x xs)
  from Cons.prems obtain y zs where y: "g x = Inr y" and zs: "collect (map g xs) = Inr zs"
    and ys: "ys = y # zs"
    by (cases "g x"; cases "collect (map g xs)") auto
  from Cons.IH[OF zs] have "length zs = length xs" "\<forall>i<length xs. g (xs ! i) = Inr (zs ! i)"
    by simp_all
  then show ?case using y ys by (auto simp: nth_Cons split: nat.splits)
qed

lemma make_key_shifts:
  assumes "make_key cosets = Inr key"
  shows "length key = length cosets \<and>
    (\<forall>i<length key. frequency_analysis (cosets ! i) = Inr (int (key ! i) - 97))"
proof -
  let ?g = "\<lambda>coset. case frequency_analysis coset of
                       Inl e \<Rightarrow> Inl e | Inr shift \<Rightarrow> Inr (nat (shift + 97))"
  from assms have "collect (map ?g cosets) = Inr key" by (simp add: make_key_def)
  from collect_nth[OF this] have len: "length key = length cosets"
    and nth: "\<forall>i<length cosets. ?g (cosets ! i) = Inr (key ! i)"
    by simp_all
  have "frequency_analysis (cosets ! i) = Inr (int (key ! i) - 97)" if "i < length key" for i
  proof -
    from frequency_analysis_spec[of "cosets ! i"] obtain r where
      r: "frequency_analysis (cosets ! i) = Inr r" "0 \<le> r" by blast
    from nth that len have "?g (cosets ! i) = Inr (key ! i)" by simp
    then have "key ! i = nat (r + 97)" using r(1) by simp
    then show ?thesis using r by simp
  qed
  then show ?thesis using len by blast
qed

lemma try_key_length_parts:
  "try_key_length ciphertext cleaned k = Inr (key, decrypted) \<Longrightarrow>
   \<exists>cosets. get_cosets cleaned k = Inr cosets \<and> make_key cosets = Inr key \<and>
            decrypt_vigenere ciphertext key = Inr decrypted"
  by (auto simp: try_key_length_def split: sum.splits)

subsection \<open>The run of the orchestrator\<close>

lemma try_list_members:
  "k \<in> set (ranked @ filter (\<lambda>k. k \<notin> set ranked) manual) \<Longrightarrow>
   k \<in> set ranked \<or> k \<in> set manual"
  by auto

lemma try_list_distinct:
  "distinct ranked \<Longrightarrow> distinct manual \<Longrightarrow>
   distinct (ranked @ filter (\<lambda>k. k \<notin> set ranked) manual)"
  by auto

lemma lengths_to_try_positive:
  assumes "set_enumeration so"
  shows "\<forall>k\<in>set (lengths_to_try (kasiski_examination so s 15)). 1 \<le> k"
proof
  fix k assume "k \<in> set (lengths_to_try (kasiski_examination so s 15))"
  then have "k \<in> set (kasiski_examination so s 15) \<or> k \<in> set [5..15]"
    unfolding lengths_to_try_def by (rule try_list_members)
  then show "1 \<le> k"
  proof
    assume "k \<in> set (kasiski_examination so s 15)"
    then have "k \<in> set (take 3 (ranking so 15 (distances s)))"
      by (simp only: kasiski_examination_ranking[OF assms])
    then have "k \<in> set (ranking so 15 (distances s))" by (rule in_set_takeD)
    from ranking_members[OF assms this] show ?thesis by simp
  next
    assume "k \<in> set [5..15]"
    then have "k \<in> {5..15}" by (simp only: set_upto)
    then show ?thesis by simp
  qed
qed

lemma lengths_to_try_distinct:
  assumes "set_enumeration so"
  shows "distinct (lengths_to_try (kasiski_examination so s 15))"
proof -
  have "distinct (kasiski_examination so s 15)"
    by (simp add: kasiski_examination_ranking[OF assms] distinct_ranking)
  then show ?thesis
    unfolding lengths_to_try_def by (rule try_list_distinct) (rule distinct_upto)
qed

lemma attempts_for_decrypted:
  assumes "\<forall>k\<in>set ks. 1 \<le> k" "(k, key, decrypted) \<in> set (attempts_for ciphertext ks)"
  shows "int (length key) = k \<and> decrypt_vigenere ciphertext key = Inr decrypted \<and>
    (\<exists>cosets. get_cosets (clean_text ciphertext) k = Inr cosets \<and>
       (\<forall>i<length key. frequency_analysis (cosets ! i) = Inr (int (key ! i) - 97)))"
proof -
  from attempts_for_entries[OF assms(2)] have k: "k \<in> set ks"
    and t: "try_key_length ciphertext (clean_text ciphertext) k = Inr (key, decrypted)"
    by simp_all
  then have "1 \<le> k" using assms(1) by simp
  from try_key_length_total[OF this, of ciphertext "clean_text ciphertext"] t
  have len: "int (length key) = k" and dec: "decrypt_vigenere ciphertext key = Inr decrypted"
    using \<open>1 \<le> k\<close> by auto
  from try_key_length_parts[OF t] obtain cosets where
    c: "get_cosets (clean_text ciphertext) k = Inr cosets" "make_key cosets = Inr key"
    by blast
  from make_key_shifts[OF c(2)]
  have "\<forall>i<length key. frequency_analysis (cosets ! i) = Inr (int (key ! i) - 97)"
    by blast
  with c(1) have "\<exists>cosets. get_cosets (clean_text ciphertext) k = Inr cosets \<and>
       (\<forall>i<length key. frequency_analysis (cosets ! i) = Inr (int (key ! i) - 97))"
    by blast
  with len dec show ?thesis by (intro conjI)
qed

text \<open>
  Claim C9. For every ciphertext, whatever order Python's set takes, the lengths to put before
  the confirmation oracle are the ranked candidates of the Kasiski examination and then the
  lengths of 5..15 that are not among them, in ascending order; no length occurs twice. The
  attempt for each of them succeeds: it shows a key of that length, made of the best shift of
  each coset of the cleaned text, and the decryption of the original ciphertext with it. With an
  oracle that rejects every attempt the run ends, the oracle has been asked once for each of
  these lengths, in this order, and the result is \<open>(None, None)\<close>. With an oracle that accepts
  an attempt after rejecting those before it, the run ends there and returns the key and the
  decrypted text of that attempt.
\<close>

theorem crack_vigenere_orchestration:
  assumes "set_enumeration set_order"
  shows
    "map fst (attempts_for ciphertext
        (lengths_to_try (kasiski_examination set_order (clean_text ciphertext) 15)))
       = lengths_to_try (kasiski_examination set_order (clean_text ciphertext) 15) \<and>
     distinct (lengths_to_try (kasiski_examination set_order (clean_text ciphertext) 15)) \<and>
     (\<forall>(k, key, decrypted) \<in> set (attempts_for ciphertext
          (lengths_to_try (kasiski_examination set_order (clean_text ciphertext) 15))).
        int (length key) = k \<and> decrypt_vigenere ciphertext key = Inr decrypted \<and>
        (\<exists>cosets. get_cosets (clean_text ciphertext) k = Inr cosets \<and>
           (\<forall>i<length key. frequency_analysis (cosets ! i) = Inr (int (key ! i) - 97)))) \<and>
     ((\<forall>log. \<exists>r. ask log = Some r \<and> \<not> accepts r) \<longrightarrow>
        crack_vigenere set_order ask ciphertext =
          Inr (attempts_for ciphertext
                 (lengths_to_try (kasiski_examination set_order (clean_text ciphertext) 15)),
               None, None)) \<and>
     (\<forall>n k key decrypted r.
        n < length (lengths_to_try (kasiski_examination set_order (clean_text ciphertext) 15)) \<and>
        attempts_for ciphertext
          (lengths_to_try (kasiski_examination set_order (clean_text ciphertext) 15)) ! n
            = (k, key, decrypted) \<and>
        (\<forall>m<n. \<exists>r. ask (take (Suc m) (attempts_for ciphertext
          (lengths_to_try (kasiski_examination set_order (clean_text ciphertext) 15)))) = Some r \<and>
            \<not> accepts r) \<and>
        ask (take (Suc n) (attempts_for ciphertext
          (lengths_to_try (kasiski_examination set_order (clean_text ciphertext) 15)))) = Some r \<and>
        accepts r \<longrightarrow>
        crack_vigenere set_order ask ciphertext =
          Inr (take (Suc n) (attempts_for ciphertext
                 (lengths_to_try (kasiski_examination set_order (clean_text ciphertext) 15))),
               Some key, Some decrypted))"
proof -
  let ?ks = "lengths_to_try (kasiski_examination set_order (clean_text ciphertext) 15)"
  let ?A = "attempts_for ciphertext ?ks"
  have pos: "\<forall>k\<in>set ?ks. 1 \<le> k" by (rule lengths_to_try_positive[OF assms])
  have 1: "map fst ?A = ?ks" by (rule attempts_for_lengths[OF pos])
  have 2: "distinct ?ks" by (rule lengths_to_try_distinct[OF assms])
  have 3: "\<forall>(k, key, decrypted) \<in> set ?A.
      int (length key) = k \<and> decrypt_vigenere ciphertext key = Inr decrypted \<and>
      (\<exists>cosets. get_cosets (clean_text ciphertext) k = Inr cosets \<and>
         (\<forall>i<length key. frequency_analysis (cosets ! i) = Inr (int (key ! i) - 97)))"
  proof
    fix x assume x: "x \<in> set ?A"
    obtain k key decrypted where xe: "x = (k, key, decrypted)" by (cases x) auto
    from x have "(k, key, decrypted) \<in> set ?A" by (simp only: xe)
    from attempts_for_decrypted[OF pos this]
    show "case x of (k, key, decrypted) \<Rightarrow>
      int (length key) = k \<and> decrypt_vigenere ciphertext key = Inr decrypted \<and>
      (\<exists>cosets. get_cosets (clean_text ciphertext) k = Inr cosets \<and>
         (\<forall>i<length key. frequency_analysis (cosets ! i) = Inr (int (key ! i) - 97)))"
      by (simp only: xe case_prod_conv)
  qed
  have 4: "(\<forall>log. \<exists>r. ask log = Some r \<and> \<not> accepts r) \<longrightarrow>
      crack_vigenere set_order ask ciphertext = Inr (?A, None, None)"
  proof
    assume rej: "\<forall>log. \<exists>r. ask log = Some r \<and> \<not> accepts r"
    then have "\<forall>m<length ?ks. \<exists>r. ask ([] @ take (Suc m) ?A) = Some r \<and> \<not> accepts r"
      by blast
    from ranked_loop_rejected[OF pos this]
    show "crack_vigenere set_order ask ciphertext = Inr (?A, None, None)"
      by (simp add: crack_vigenere_loop)
  qed
  have 5: "\<forall>n k key decrypted r.
      n < length ?ks \<and> ?A ! n = (k, key, decrypted) \<and>
      (\<forall>m<n. \<exists>r. ask (take (Suc m) ?A) = Some r \<and> \<not> accepts r) \<and>
      ask (take (Suc n) ?A) = Some r \<and> accepts r \<longrightarrow>
      crack_vigenere set_order ask ciphertext = Inr (take (Suc n) ?A, Some key, Some decrypted)"
  proof (intro allI impI)
    fix n k key decrypted r
    assume h: "n < length ?ks \<and> ?A ! n = (k, key, decrypted) \<and>
      (\<forall>m<n. \<exists>r. ask (take (Suc m) ?A) = Some r \<and> \<not> accepts r) \<and>
      ask (take (Suc n) ?A) = Some r \<and> accepts r"
    then have n: "n < length ?ks" and nth: "?A ! n = (k, key, decrypted)"
      and rej: "\<forall>m<n. \<exists>r. ask ([] @ take (Suc m) ?A) = Some r \<and> \<not> accepts r"
      and acc: "ask ([] @ take (Suc n) ?A) = Some r" "accepts r"
      by simp_all
    from ranked_loop_accepted[OF pos n rej acc nth]
    show "crack_vigenere set_order ask ciphertext = Inr (take (Suc n) ?A, Some key, Some decrypted)"
      by (simp add: crack_vigenere_loop)
  qed
  from 1 2 3 4 5 show ?thesis by (intro conjI)
qed

text \<open>A run on \<open>abcdefghijklabc\<close>, with an oracle that rejects and one that accepts.\<close>

lemma sample_lengths:
  "lengths_to_try (kasiski_examination ascending (clean_text (str ''abcdefghijklabc'')) 15)
     = [2, 3, 4] @ [5..15]"
proof -
  have c: "clean_text (str ''abcdefghijklabc'') = str ''abcdefghijklabc''"
    by code_simp
  have "\<forall>k\<in>set [5..15]. k \<notin> set [2, 3, 4]" by (simp only: set_upto) simp
  then have "filter (\<lambda>k. k \<notin> set [2, 3, 4]) [5..15] = [5..15]"
    by (simp only: filter_id_conv)
  then show ?thesis by (simp only: c sample_run(2) lengths_to_try_def)
qed

lemma always_reject_rejects: "\<forall>log. \<exists>r. always_reject log = Some r \<and> \<not> accepts r"
  by (simp add: always_reject_def accepts_def lower_def lower_cp_def)

lemma accept_first_accepts: "accept_first log = Some [121] \<and> accepts [121]"
  by (simp add: accept_first_def accepts_def lower_def lower_cp_def)

theorem crack_vigenere_orchestration_witness:
  "(\<exists>log. crack_vigenere ascending always_reject (str ''abcdefghijklabc'') = Inr (log, None, None) \<and>
          map fst log = [2, 3, 4] @ [5..15]) \<and>
   (\<exists>key decrypted.
      crack_vigenere ascending accept_first (str ''abcdefghijklabc'')
        = Inr ([(2, key, decrypted)], Some key, Some decrypted) \<and>
      decrypt_vigenere (str ''abcdefghijklabc'') key = Inr decrypted)"
proof -
  let ?t = "str ''abcdefghijklabc''"
  let ?ks = "lengths_to_try (kasiski_examination ascending (clean_text ?t) 15)"
  let ?A = "attempts_for ?t ?ks"
  note reject_run = crack_vigenere_orchestration[OF ascending_enumeration, of ?t always_reject]
  note accept_run = crack_vigenere_orchestration[OF ascending_enumeration, of ?t accept_first]
  have "map fst ?A = ?ks" using reject_run by blast
  then have lens: "map fst ?A = [2, 3, 4] @ [5..15]"
    by (simp only: sample_lengths)
  have "crack_vigenere ascending always_reject ?t = Inr (?A, None, None)"
    using reject_run always_reject_rejects by blast
  with lens have first: "\<exists>log. crack_vigenere ascending always_reject ?t = Inr (log, None, None) \<and>
          map fst log = [2, 3, 4] @ [5..15]"
    by blast
  from lens have "map fst ?A = 2 # ([3, 4] @ [5..15])" by (simp only: append_Cons)
  then have "\<exists>a rest. ?A = a # rest \<and> fst a = 2"
    by (simp only: map_eq_Cons_conv) blast
  then obtain a rest where A: "?A = a # rest" and a: "fst a = 2" by blast
  obtain key decrypted where akd: "a = (2, key, decrypted)" using a by (cases a) auto
  have ks: "?ks = [2, 3, 4] @ [5..15]" by (rule sample_lengths)
  have n: "0 < length ?ks" by (simp only: ks append_Cons length_Cons zero_less_Suc)
  have nth: "?A ! 0 = (2, key, decrypted)" by (simp add: A akd)
  have tk: "take (Suc 0) ?A = [(2, key, decrypted)]" by (simp add: A akd)
  have acc: "accept_first (take (Suc 0) ?A) = Some [121] \<and> accepts [121]"
    by (rule accept_first_accepts)
  have hyp: "0 < length ?ks \<and> ?A ! 0 = (2, key, decrypted) \<and>
      (\<forall>m<0. \<exists>r. accept_first (take (Suc m) ?A) = Some r \<and> \<not> accepts r) \<and>
      accept_first (take (Suc 0) ?A) = Some [121] \<and> accepts [121]"
    using n nth acc by simp
  have run: "\<forall>n k key decrypted r.
      n < length ?ks \<and> ?A ! n = (k, key, decrypted) \<and>
      (\<forall>m<n. \<exists>r. accept_first (take (Suc m) ?A) = Some r \<and> \<not> accepts r) \<and>
      accept_first (take (Suc n) ?A) = Some r \<and> accepts r \<longrightarrow>
      crack_vigenere ascending accept_first ?t = Inr (take (Suc n) ?A, Some key, Some decrypted)"
    using accept_run by blast
  from run hyp have "crack_vigenere ascending accept_first ?t
      = Inr (take (Suc 0) ?A, Some key, Some decrypted)"
    by blast
  then have c: "crack_vigenere ascending accept_first ?t
      = Inr ([(2, key, decrypted)], Some key, Some decrypted)"
    by (simp only: tk)
  have "(2, key, decrypted) \<in> set ?A" by (simp add: A akd)
  moreover have "\<forall>(k, key, decrypted) \<in> set ?A.
      int (length key) = k \<and> decrypt_vigenere ?t key = Inr decrypted \<and>
      (\<exists>cosets. get_cosets (clean_text ?t) k = Inr cosets \<and>
         (\<forall>i<length key. frequency_analysis (cosets ! i) = Inr (int (key ! i) - 97)))"
    using accept_run by (rule conjunct1[OF conjunct2[OF conjunct2]])
  ultimately have "decrypt_vigenere ?t key = Inr decrypted" by blast
  with c have "\<exists>key decrypted.
      crack_vigenere ascending accept_first ?t = Inr ([(2, key, decrypted)], Some key, Some decrypted) \<and>
      decrypt_vigenere ?t key = Inr decrypted"
    by blast
  with first show ?thesis by (intro conjI)
qed

end
